theory Spec2Isabelle
  imports Complex_Main "HOL-Library.Log_Nat" "HOL-Library.Multiset"
    "HOL-Library.Code_Target_Numeral"
begin

section \<open>Python's float arithmetic\<close>

text \<open>
  The sort mixes integers and floats: \<^verbatim>\<open>math.sqrt(n)\<close>, \<^verbatim>\<open>n * 0.01\<close>,
  \<^verbatim>\<open>i / num_buckets\<close> and \<^verbatim>\<open>quantile * (sample_size - 1)\<close> are all computed in
  IEEE 754 binary64 with round-to-nearest, ties-to-even. A float is modelled by the real number
  it denotes, and every operation rounds its exact result with \<open>fl\<close>. The exponent is
  unbounded: \<open>fl\<close> agrees with binary64 on the normal range, and every value that the
  sort computes on a list of fewer than \<open>2 ^ 63\<close> elements lies between \<open>2 ^ - 64\<close>
  and \<open>2 ^ 64\<close> (or is \<open>0\<close>).
\<close>

text \<open>Rounding a real to the nearest integer, a tie going to the even neighbour.\<close>

definition round_half_even :: "real \<Rightarrow> int" where
  "round_half_even y =
     (let f = \<lfloor>y\<rfloor>; r = y - of_int f
      in if r < 1 / 2 then f
         else if 1 / 2 < r then f + 1
         else if even f then f else f + 1)"

text \<open>
  The binary exponent of a positive real: \<open>2 powi flog2 x \<le> x < 2 powi (flog2 x + 1)\<close>,
  computed from the bit length of an integer (lemma \<open>flog2_bounds\<close>).
\<close>

definition flog2 :: "real \<Rightarrow> int" where
  "flog2 x =
     (if 1 \<le> x then int (floorlog 2 (nat \<lfloor>x\<rfloor>)) - 1
      else - int (floorlog 2 (nat (\<lceil>1 / x\<rceil> - 1))))"

text \<open>Rounding a positive real to 53 significant bits.\<close>

definition fl_mag :: "real \<Rightarrow> real" where
  "fl_mag a =
     (let e = flog2 a - 52
      in of_int (round_half_even (a / 2 powi e)) * 2 powi e)"

definition fl :: "real \<Rightarrow> real" where
  "fl x = (if x = 0 then 0 else if 0 < x then fl_mag x else - fl_mag (- x))"

text \<open>The float literal \<^verbatim>\<open>0.01\<close>, hexadecimal \<^verbatim>\<open>0x1.47ae147ae147bp-7\<close>.\<close>

definition d001 :: real where
  "d001 = 5764607523034235 / 2 ^ 59"

text \<open>\<^verbatim>\<open>float(k)\<close> for an integer, as the mixed operations \<^verbatim>\<open>int * float\<close> apply it.\<close>

definition float_of_int :: "int \<Rightarrow> real" where
  "float_of_int k = fl (of_int k)"

definition float_mul :: "real \<Rightarrow> real \<Rightarrow> real" where
  "float_mul x y = fl (x * y)"

datatype py_error = ValueError | IndexError | ZeroDivisionError | TypeError

text \<open>\<^verbatim>\<open>a / b\<close> on two integers: the correctly rounded quotient.\<close>

definition int_truediv :: "int \<Rightarrow> int \<Rightarrow> py_error + real" where
  "int_truediv a b = (if b = 0 then Inl ZeroDivisionError else Inr (fl (of_int a / of_int b)))"

text \<open>\<^verbatim>\<open>math.sqrt(k)\<close> on an integer: the correctly rounded square root of \<^verbatim>\<open>float(k)\<close>.\<close>

definition math_sqrt :: "int \<Rightarrow> py_error + real" where
  "math_sqrt k = (if k < 0 then Inl ValueError else Inr (fl (sqrt (float_of_int k))))"

text \<open>
  An executable form of the correctly rounded square root, for running the model: the
  integer square root by bisection, and the square root of a positive real rounded to 53 bits
  by comparing the scaled argument with the square of the midpoint. Lemma \<open>fl_sqrt_correct\<close>
  proves \<open>fl (sqrt x) = fl_sqrt x\<close>, and \<open>math_sqrt_code\<close> makes it the code equation of
  \<open>math_sqrt\<close>.
\<close>

function isqrt_loop :: "nat \<Rightarrow> nat \<Rightarrow> nat \<Rightarrow> nat" where
  "isqrt_loop n lo hi =
     (if lo + 1 < hi
      then let mid = (lo + hi) div 2
           in if mid * mid \<le> n then isqrt_loop n mid hi else isqrt_loop n lo mid
      else lo)"
  by pat_completeness auto
termination
  by (relation "measure (\<lambda>(n, lo, hi). hi - lo)") auto

declare isqrt_loop.simps [simp del]

definition isqrt :: "nat \<Rightarrow> nat" where
  "isqrt n = isqrt_loop n 0 (n + 1)"

definition fl_sqrt :: "real \<Rightarrow> real" where
  "fl_sqrt x =
     (if x \<le> 0 then 0
      else let e = flog2 x div 2 - 52;
               y = x / 2 powi (2 * e);
               m = int (isqrt (nat \<lfloor>y\<rfloor>));
               t = (of_int m + 1 / 2)\<^sup>2
           in of_int (if y < t then m else if t < y then m + 1 else if even m then m else m + 1)
                * 2 powi e)"

text \<open>\<^verbatim>\<open>int(x)\<close> on a float truncates toward zero.\<close>

definition int_of_float :: "real \<Rightarrow> int" where
  "int_of_float x = (if 0 \<le> x then \<lfloor>x\<rfloor> else \<lceil>x\<rceil>)"

section \<open>Lists, binary search and the random source\<close>

text \<open>\<^verbatim>\<open>xs[i]\<close>: a negative index counts from the end, an index out of range raises.\<close>

definition list_get :: "'a list \<Rightarrow> int \<Rightarrow> py_error + 'a" where
  "list_get xs i =
     (if 0 \<le> i \<and> i < int (length xs) then Inr (xs ! nat i)
      else if i < 0 \<and> - int (length xs) \<le> i then Inr (xs ! nat (int (length xs) + i))
      else Inl IndexError)"

text \<open>
  \<^verbatim>\<open>bisect.bisect_left(a, x)\<close> of the standard library:
  \<^verbatim>\<open>
  lo, hi = 0, len(a)
  while lo < hi:
      mid = (lo + hi) // 2
      if a[mid] < x: lo = mid + 1
      else: hi = mid
  return lo
  \<close>
\<close>

function bisect_left_loop :: "'a::linorder list \<Rightarrow> 'a \<Rightarrow> nat \<Rightarrow> nat \<Rightarrow> nat" where
  "bisect_left_loop a x lo hi =
     (if lo < hi
      then let mid = (lo + hi) div 2
           in if a ! mid < x then bisect_left_loop a x (mid + 1) hi
              else bisect_left_loop a x lo mid
      else lo)"
  by pat_completeness auto
termination
  by (relation "measure (\<lambda>(a, x, lo, hi). hi - lo)") auto

declare bisect_left_loop.simps [simp del]

definition bisect_left :: "'a::linorder list \<Rightarrow> 'a \<Rightarrow> nat" where
  "bisect_left a x = bisect_left_loop a x 0 (length a)"

text \<open>
  The random source is the state \<open>'g\<close> of Python's generator. \<^verbatim>\<open>random.sample\<close> chooses
  positions of the population from it: a sampler maps the state, the population size \<open>n\<close>
  and the sample size \<open>k\<close> to the chosen positions and the next state. Its contract
  (\<open>sampler_ok\<close>) is the one of \<^verbatim>\<open>random.sample\<close>: \<open>k\<close> distinct positions below \<open>n\<close>.
\<close>

type_synonym 'g sampler = "'g \<Rightarrow> nat \<Rightarrow> nat \<Rightarrow> nat list \<times> 'g"

definition sampler_ok :: "'g sampler \<Rightarrow> bool" where
  "sampler_ok smp \<longleftrightarrow>
     (\<forall>g n k. k \<le> n \<longrightarrow>
        length (fst (smp g n k)) = k \<and> distinct (fst (smp g n k)) \<and>
        (\<forall>j \<in> set (fst (smp g n k)). j < n))"

text \<open>\<^verbatim>\<open>random.sample(population, k)\<close> raises \<^verbatim>\<open>ValueError\<close> unless \<open>0 \<le> k \<le> n\<close>.\<close>

definition random_sample :: "'g sampler \<Rightarrow> 'g \<Rightarrow> 'a list \<Rightarrow> int \<Rightarrow> py_error + ('a list \<times> 'g)" where
  "random_sample smp g population k =
     (if 0 \<le> k \<and> k \<le> int (length population)
      then let (js, g') = smp g (length population) (nat k)
           in Inr (map (\<lambda>j. population ! j) js, g')
      else Inl ValueError)"

text \<open>A sampler for running the model: the first \<open>k\<close> positions, the state counting the calls.\<close>

definition first_positions :: "nat sampler" where
  "first_positions g n k = ([0 ..< k], Suc g)"

text \<open>A second one: the last \<open>k\<close> positions, backwards, the state counting the positions drawn.\<close>

definition last_positions :: "nat sampler" where
  "last_positions g n k = (rev [n - k ..< n], g + k)"

section \<open>The sort\<close>

text \<open>\<^verbatim>\<open>num_buckets = max(1, int(math.sqrt(n)))\<close>\<close>

definition calc_num_buckets :: "int \<Rightarrow> py_error + int" where
  "calc_num_buckets n =
     (case math_sqrt n of Inl e \<Rightarrow> Inl e | Inr r \<Rightarrow> Inr (max 1 (int_of_float r)))"

text \<open>\<^verbatim>\<open>sample_size = min(n, max(1000, int(n * 0.01)))\<close>\<close>

definition calc_sample_size :: "int \<Rightarrow> int" where
  "calc_sample_size n = min n (max 1000 (int_of_float (float_mul (float_of_int n) d001)))"

text \<open>
  \<^verbatim>\<open>quantile = i / num_buckets\<close> and \<^verbatim>\<open>index = int(quantile * (sample_size - 1))\<close>.
\<close>

definition quantile_index :: "int \<Rightarrow> int \<Rightarrow> int \<Rightarrow> py_error + int" where
  "quantile_index i num_buckets sample_size =
     (case int_truediv i num_buckets of
        Inl e \<Rightarrow> Inl e
      | Inr quantile \<Rightarrow> Inr (int_of_float (float_mul quantile (float_of_int (sample_size - 1)))))"

text \<open>
  The loop \<^verbatim>\<open>for i in range(1, num_buckets): ... bucket_boundaries.append(sample[index])\<close>
  over the remaining values of \<open>i\<close>.
\<close>

fun boundaries_loop :: "'a list \<Rightarrow> int \<Rightarrow> int \<Rightarrow> int list \<Rightarrow> 'a list \<Rightarrow> py_error + 'a list" where
  "boundaries_loop sample num_buckets sample_size [] bucket_boundaries = Inr bucket_boundaries"
| "boundaries_loop sample num_buckets sample_size (i # is) bucket_boundaries =
     (case quantile_index i num_buckets sample_size of
        Inl e \<Rightarrow> Inl e
      | Inr index \<Rightarrow>
          (case list_get sample index of
             Inl e \<Rightarrow> Inl e
           | Inr v \<Rightarrow> boundaries_loop sample num_buckets sample_size is (bucket_boundaries @ [v])))"

text \<open>
  The loop \<^verbatim>\<open>for x in data: index = bisect_left(bucket_boundaries, x); buckets[index].append(x)\<close>.
  The index is never negative, so \<^verbatim>\<open>buckets[index]\<close> raises exactly when it is too large.
\<close>

fun assign_loop :: "'a::linorder list \<Rightarrow> 'a list list \<Rightarrow> 'a list \<Rightarrow> py_error + 'a list list" where
  "assign_loop bucket_boundaries buckets [] = Inr buckets"
| "assign_loop bucket_boundaries buckets (x # xs) =
     (let index = bisect_left bucket_boundaries x
      in if index < length buckets
         then assign_loop bucket_boundaries (buckets[index := buckets ! index @ [x]]) xs
         else Inl IndexError)"

text \<open>The loop \<^verbatim>\<open>for bucket in buckets: sorted_data.extend(sorted(bucket))\<close>.\<close>

fun concat_loop :: "'a::linorder list list \<Rightarrow> 'a list \<Rightarrow> 'a list" where
  "concat_loop [] sorted_data = sorted_data"
| "concat_loop (bucket # rest) sorted_data = concat_loop rest (sorted_data @ sort bucket)"

text \<open>The local variables of a call that got past the test \<^verbatim>\<open>n == 0\<close>, at its return.\<close>

record ('a, 'g) locals =
  num_buckets :: int
  sample_size :: int
  sample :: "'a list"
  bucket_boundaries :: "'a list"
  buckets :: "'a list list"
  sorted_data :: "'a list"
  rng :: 'g

definition bsq_body :: "'g sampler \<Rightarrow> 'g \<Rightarrow> 'a::linorder list \<Rightarrow> py_error + ('a, 'g) locals" where
  "bsq_body smp g data =
     (let n = int (length data) in
      case calc_num_buckets n of Inl e \<Rightarrow> Inl e | Inr nb \<Rightarrow>
      let ss = calc_sample_size n in
      case random_sample smp g data ss of Inl e \<Rightarrow> Inl e | Inr (drawn, g') \<Rightarrow>
      let smpl = sort drawn in
      case boundaries_loop smpl nb ss [1 .. nb - 1] [] of Inl e \<Rightarrow> Inl e | Inr bb \<Rightarrow>
      case assign_loop bb (replicate (nat nb) []) data of Inl e \<Rightarrow> Inl e | Inr bs \<Rightarrow>
      Inr \<lparr>num_buckets = nb, sample_size = ss, sample = smpl, bucket_boundaries = bb,
           buckets = bs, sorted_data = concat_loop bs [], rng = g'\<rparr>)"

text \<open>
  \<^verbatim>\<open>bucket_sort_quantile_based(data)\<close>: the result is the returned list and the state in
  which the call leaves the random source.
\<close>

definition bucket_sort_quantile_based ::
    "'g sampler \<Rightarrow> 'g \<Rightarrow> 'a::linorder list \<Rightarrow> py_error + ('a list \<times> 'g)" where
  "bucket_sort_quantile_based smp g data =
     (if length data = 0 then Inr (data, g)
      else case bsq_body smp g data of
             Inl e \<Rightarrow> Inl e
           | Inr l \<Rightarrow> Inr (sorted_data l, rng l))"

section \<open>Closed forms used in the proofs\<close>

text \<open>The value of \<open>quantile_index\<close> when the division is defined and nothing is negative.\<close>

definition qidx :: "int \<Rightarrow> int \<Rightarrow> int \<Rightarrow> int" where
  "qidx i nb ss = \<lfloor>fl (fl (of_int i / of_int nb) * fl (of_int (ss - 1)))\<rfloor>"

text \<open>What \<open>bsq_body\<close> returns when no operation fails (lemma \<open>bsq_body_eq\<close>).\<close>

definition body_spec :: "'g sampler \<Rightarrow> 'g \<Rightarrow> 'a::linorder list \<Rightarrow> ('a, 'g) locals" where
  "body_spec smp g data =
     (let n = int (length data);
          nb = max 1 \<lfloor>fl (sqrt (fl (of_int n)))\<rfloor>;
          ss = calc_sample_size n;
          smpl = sort (map (\<lambda>j. data ! j) (fst (smp g (length data) (nat ss))));
          bb = map (\<lambda>i. smpl ! nat (qidx i nb ss)) [1 .. nb - 1];
          bs = map (\<lambda>j. filter (\<lambda>x. bisect_left bb x = j) data) [0 ..< nat nb]
      in \<lparr>num_buckets = nb, sample_size = ss, sample = smpl, bucket_boundaries = bb,
           buckets = bs, sorted_data = concat (map sort bs),
           rng = snd (smp g (length data) (nat ss))\<rparr>)"

section \<open>The sort on a store\<close>

text \<open>
  For the effect of a call on the caller's list the lists are objects in a store: a reference
  is an address, \<open>cells\<close> maps an address to the list stored there, and \<open>next_free\<close> is the
  next address to hand out. The elements are immutable and stay values. The list
  \<^verbatim>\<open>buckets\<close> of bucket lists is never shared, so it is the list of the buckets' addresses.
\<close>

record 'a heap =
  cells :: "nat \<Rightarrow> 'a list option"
  next_free :: nat

text \<open>Reading an object, replacing the contents of an object, creating an object.\<close>

definition heap_get :: "'a heap \<Rightarrow> nat \<Rightarrow> 'a list" where
  "heap_get h r = (case cells h r of Some xs \<Rightarrow> xs | None \<Rightarrow> [])"

definition heap_set :: "nat \<Rightarrow> 'a list \<Rightarrow> 'a heap \<Rightarrow> 'a heap" where
  "heap_set r xs h = h\<lparr>cells := (cells h)(r \<mapsto> xs)\<rparr>"

definition heap_new :: "'a list \<Rightarrow> 'a heap \<Rightarrow> nat \<times> 'a heap" where
  "heap_new xs h =
     (next_free h, h\<lparr>cells := (cells h)(next_free h \<mapsto> xs), next_free := Suc (next_free h)\<rparr>)"

text \<open>
  The boundary loop: \<^verbatim>\<open>sample[index]\<close> reads the sample object and
  \<^verbatim>\<open>bucket_boundaries.append\<close> writes the boundary object in place.
\<close>

fun boundaries_heap_loop ::
    "nat \<Rightarrow> nat \<Rightarrow> int \<Rightarrow> int \<Rightarrow> int list \<Rightarrow> 'a heap \<Rightarrow> py_error option \<times> 'a heap" where
  "boundaries_heap_loop sample_ref bb_ref nb ss [] h = (None, h)"
| "boundaries_heap_loop sample_ref bb_ref nb ss (i # is) h =
     (case quantile_index i nb ss of
        Inl e \<Rightarrow> (Some e, h)
      | Inr index \<Rightarrow>
          (case list_get (heap_get h sample_ref) index of
             Inl e \<Rightarrow> (Some e, h)
           | Inr v \<Rightarrow>
               boundaries_heap_loop sample_ref bb_ref nb ss is
                 (heap_set bb_ref (heap_get h bb_ref @ [v]) h)))"

text \<open>\<^verbatim>\<open>buckets = [[] for _ in range(num_buckets)]\<close>: one new empty list per bucket.\<close>

fun new_buckets :: "nat \<Rightarrow> 'a heap \<Rightarrow> nat list \<times> 'a heap" where
  "new_buckets 0 h = ([], h)"
| "new_buckets (Suc k) h =
     (let (r, h1) = heap_new [] h; (rs, h2) = new_buckets k h1 in (r # rs, h2))"

text \<open>
  Comparing two elements can raise: \<^verbatim>\<open>x < y\<close> on objects that have no order between them
  (a number and \<^verbatim>\<open>None\<close>, a number and a string) is a \<^verbatim>\<open>TypeError\<close>. On the store the
  elements are of any type, a comparison is a function that returns \<open>None\<close> when Python
  raises, and \<^verbatim>\<open>list.sort\<close> and \<^verbatim>\<open>sorted\<close> are a function from the contents of a list to
  the sorted contents, or \<open>None\<close> when a comparison inside the sort has raised.
  A comparison reads its two arguments and writes nothing: the elements are values (numbers,
  strings, \<^verbatim>\<open>None\<close>, tuples of them), not objects whose comparison method could reach the
  caller's list.
\<close>

type_synonym 'a compare = "'a \<Rightarrow> 'a \<Rightarrow> bool option"

type_synonym 'a sorter = "'a list \<Rightarrow> 'a list option"

text \<open>\<^verbatim>\<open>bisect_left\<close> with a comparison \<^verbatim>\<open>a[mid] < x\<close> that can raise.\<close>

function bisect_left_by_loop :: "'a compare \<Rightarrow> 'a list \<Rightarrow> 'a \<Rightarrow> nat \<Rightarrow> nat \<Rightarrow> nat option" where
  "bisect_left_by_loop lt a x lo hi =
     (if lo < hi
      then (case lt (a ! ((lo + hi) div 2)) x of
              None \<Rightarrow> None
            | Some b \<Rightarrow>
                if b then bisect_left_by_loop lt a x ((lo + hi) div 2 + 1) hi
                else bisect_left_by_loop lt a x lo ((lo + hi) div 2))
      else Some lo)"
  by pat_completeness auto
termination
  by (relation "measure (\<lambda>(lt, a, x, lo, hi). hi - lo)") auto

declare bisect_left_by_loop.simps [simp del]

definition bisect_left_by :: "'a compare \<Rightarrow> 'a list \<Rightarrow> 'a \<Rightarrow> nat option" where
  "bisect_left_by lt a x = bisect_left_by_loop lt a x 0 (length a)"

text \<open>
  A sort from a comparison, for running the model: the insertion sort that \<open>sort\<close> is, with
  \<^verbatim>\<open>y < x\<close> as its only test, given up at the first comparison that raises.
\<close>

fun insort_by :: "'a compare \<Rightarrow> 'a \<Rightarrow> 'a list \<Rightarrow> 'a list option" where
  "insort_by lt x [] = Some [x]"
| "insort_by lt x (y # ys) =
     (case lt y x of
        None \<Rightarrow> None
      | Some b \<Rightarrow> if b then map_option ((#) y) (insort_by lt x ys) else Some (x # y # ys))"

fun sort_by :: "'a compare \<Rightarrow> 'a sorter" where
  "sort_by lt [] = Some []"
| "sort_by lt (x # xs) =
     (case sort_by lt xs of None \<Rightarrow> None | Some ys \<Rightarrow> insort_by lt x ys)"

text \<open>The comparison and the sort of a totally ordered type: neither raises.\<close>

definition linorder_compare :: "'a::linorder compare" where
  "linorder_compare a b = Some (a < b)"

definition linorder_sorter :: "'a::linorder sorter" where
  "linorder_sorter xs = Some (sort xs)"

text \<open>
  Integers together with \<^verbatim>\<open>None\<close>: two integers compare, and any comparison with \<^verbatim>\<open>None\<close>
  is a \<^verbatim>\<open>TypeError\<close>.
\<close>

definition py_less :: "int option compare" where
  "py_less x y =
     (case x of None \<Rightarrow> None | Some a \<Rightarrow> (case y of None \<Rightarrow> None | Some b \<Rightarrow> Some (a < b)))"

text \<open>
  The assignment loop over the positions of \<^verbatim>\<open>data\<close>: each step reads the element from the
  caller's object as the store then is, and appends it to a bucket object in place.
\<close>

fun assign_heap_loop ::
    "'a compare \<Rightarrow> nat \<Rightarrow> nat list \<Rightarrow> nat \<Rightarrow> nat list \<Rightarrow> 'a heap \<Rightarrow> py_error option \<times> 'a heap" where
  "assign_heap_loop lt bb_ref bucket_refs data_ref [] h = (None, h)"
| "assign_heap_loop lt bb_ref bucket_refs data_ref (k # ks) h =
     (case bisect_left_by lt (heap_get h bb_ref) (heap_get h data_ref ! k) of
        None \<Rightarrow> (Some TypeError, h)
      | Some index \<Rightarrow>
          if index < length bucket_refs
          then assign_heap_loop lt bb_ref bucket_refs data_ref ks
                 (heap_set (bucket_refs ! index)
                    (heap_get h (bucket_refs ! index) @ [heap_get h data_ref ! k]) h)
          else (Some IndexError, h))"

text \<open>
  The last loop: \<^verbatim>\<open>sorted(bucket)\<close> creates a list unless a comparison raises,
  \<^verbatim>\<open>sorted_data.extend\<close> writes the result object in place.
\<close>

fun concat_heap_loop ::
    "'a sorter \<Rightarrow> nat \<Rightarrow> nat list \<Rightarrow> 'a heap \<Rightarrow> py_error option \<times> 'a heap" where
  "concat_heap_loop srt sd_ref [] h = (None, h)"
| "concat_heap_loop srt sd_ref (r # rs) h =
     (case srt (heap_get h r) of
        None \<Rightarrow> (Some TypeError, h)
      | Some sorted_bucket \<Rightarrow>
          (let (tmp, h1) = heap_new sorted_bucket h;
               h2 = heap_set sd_ref (heap_get h1 sd_ref @ heap_get h1 tmp) h1
           in concat_heap_loop srt sd_ref rs h2))"

text \<open>
  \<^verbatim>\<open>bucket_sort_quantile_based(data)\<close> with \<^verbatim>\<open>data\<close> the object at \<open>data_ref\<close>: the
  returned reference or the error raised, the store and the random source after the call.
  On an empty list the function returns its argument, the same object. \<^verbatim>\<open>random.sample\<close>
  returns a new list, which \<^verbatim>\<open>sample.sort()\<close> then sorts in place; when that sort raises,
  nothing refers to the sample any more, and the model leaves it as it was drawn.
\<close>

definition bsq_heap ::
    "'a compare \<Rightarrow> 'a sorter \<Rightarrow> 'g sampler \<Rightarrow> 'g \<Rightarrow> 'a heap \<Rightarrow> nat
       \<Rightarrow> (py_error + nat) \<times> 'a heap \<times> 'g" where
  "bsq_heap lt srt smp g h data_ref =
     (let n = int (length (heap_get h data_ref)) in
      if n = 0 then (Inr data_ref, h, g)
      else case calc_num_buckets n of Inl e \<Rightarrow> (Inl e, h, g) | Inr nb \<Rightarrow>
      let ss = calc_sample_size n in
      case random_sample smp g (heap_get h data_ref) ss of
        Inl e \<Rightarrow> (Inl e, h, g)
      | Inr (drawn, g') \<Rightarrow>
      let (sample_ref, h1) = heap_new drawn h
      in case srt (heap_get h1 sample_ref) of
        None \<Rightarrow> (Inl TypeError, h1, g')
      | Some sorted_sample \<Rightarrow>
      let h2 = heap_set sample_ref sorted_sample h1;
          (bb_ref, h3) = heap_new [] h2
      in case boundaries_heap_loop sample_ref bb_ref nb ss [1 .. nb - 1] h3 of
        (Some e, h4) \<Rightarrow> (Inl e, h4, g')
      | (None, h4) \<Rightarrow>
      let (bucket_refs, h5) = new_buckets (nat nb) h4
      in case assign_heap_loop lt bb_ref bucket_refs data_ref
                [0 ..< length (heap_get h5 data_ref)] h5 of
        (Some e, h6) \<Rightarrow> (Inl e, h6, g')
      | (None, h6) \<Rightarrow>
      let (sd_ref, h7) = heap_new [] h6
      in case concat_heap_loop srt sd_ref bucket_refs h7 of
        (Some e, h8) \<Rightarrow> (Inl e, h8, g')
      | (None, h8) \<Rightarrow> (Inr sd_ref, h8, g'))"

text \<open>
  \<open>frame k h h'\<close>: the objects below address \<open>k\<close> are the same in \<open>h'\<close> as in \<open>h\<close>, and no
  address has been given back.
\<close>

definition frame :: "nat \<Rightarrow> 'a heap \<Rightarrow> 'a heap \<Rightarrow> bool" where
  "frame k h h' \<longleftrightarrow> (\<forall>a<k. cells h' a = cells h a) \<and> next_free h \<le> next_free h'"

section \<open>Auxiliary lemmas\<close>

lemmas fl_eval = fl_def fl_mag_def flog2_def compute_floorlog round_half_even_def Let_def
  float_of_int_def float_mul_def int_truediv_def int_of_float_def d001_def

lemma round_half_even_of_int: "round_half_even (of_int k) = k"
  by (simp add: round_half_even_def)

lemma round_half_even_lower: "\<lfloor>y\<rfloor> \<le> round_half_even y"
  by (simp add: round_half_even_def Let_def)

lemma round_half_even_upper: "round_half_even y \<le> \<lfloor>y\<rfloor> + 1"
  by (simp add: round_half_even_def Let_def)

lemma round_half_even_mono:
  assumes "y \<le> z"
  shows "round_half_even y \<le> round_half_even z"
proof (cases "\<lfloor>y\<rfloor> = \<lfloor>z\<rfloor>")
  case True
  with assms show ?thesis
    by (auto simp: round_half_even_def Let_def)
next
  case False
  with assms have "\<lfloor>y\<rfloor> + 1 \<le> \<lfloor>z\<rfloor>"
    using floor_mono [of y z] by linarith
  then show ?thesis
    using round_half_even_upper [of y] round_half_even_lower [of z] by linarith
qed

lemma round_half_even_err: "\<bar>of_int (round_half_even y) - y\<bar> \<le> 1 / 2"
  by (auto simp: round_half_even_def Let_def)

lemma pow2_less_D: "(2::real) powi a < 2 powi b \<Longrightarrow> a < b"
  using power_int_increasing [of b a "2::real"] by (cases "a < b") auto

lemma real_pow2_le: "2 ^ k \<le> n \<Longrightarrow> (2::real) ^ k \<le> real n"
  using of_nat_mono [of "2 ^ k" n, where 'a = real] by simp

lemma real_pow2_gt: "n < 2 ^ k \<Longrightarrow> real n + 1 \<le> (2::real) ^ k"
  using of_nat_mono [of "Suc n" "2 ^ k", where 'a = real] by simp

lemma flog2_bounds:
  assumes "0 < x"
  shows "2 powi flog2 x \<le> x" and "x < 2 powi (flog2 x + 1)"
proof -
  have "2 powi flog2 x \<le> x \<and> x < 2 powi (flog2 x + 1)"
  proof (cases "1 \<le> x")
    case True
    define n where "n = nat \<lfloor>x\<rfloor>"
    define m where "m = floorlog 2 n"
    have n: "0 < n" "real n \<le> x" "x < real n + 1"
      using True by (auto simp: n_def)
    have b: "2 ^ (m - 1) \<le> n" "n < 2 ^ m"
      using floorlog_bounds [of n 2] n(1) by (auto simp: m_def)
    have m: "0 < m" using b(2) n(1) by (cases m) auto
    have e: "flog2 x = int (m - 1)"
      using True m by (simp add: flog2_def m_def n_def)
    have "(2::real) ^ (m - 1) \<le> real n" using b(1) by (rule real_pow2_le)
    then have l: "2 powi flog2 x \<le> x" using n(2) unfolding e power_int_of_nat by linarith
    have "real n + 1 \<le> 2 ^ m" using b(2) by (rule real_pow2_gt)
    moreover have "flog2 x + 1 = int m" using e m by simp
    ultimately have "x < 2 powi (flog2 x + 1)" using n(3) by simp
    with l show ?thesis by simp
  next
    case False
    define y where "y = 1 / x"
    define c where "c = nat (\<lceil>y\<rceil> - 1)"
    define m where "m = floorlog 2 c"
    have y: "1 < y" using False assms by (simp add: y_def)
    then have "2 \<le> \<lceil>y\<rceil>" by linarith
    then have c: "0 < c" "real c < y" "y \<le> real c + 1"
      by (auto simp: c_def) (linarith+)?
    have b: "2 ^ (m - 1) \<le> c" "c < 2 ^ m"
      using floorlog_bounds [of c 2] c(1) by (auto simp: m_def)
    have m: "0 < m" using b(2) c(1) by (cases m) auto
    have e: "flog2 x = - int m"
      using False by (simp add: flog2_def m_def c_def y_def)
    have "real c + 1 \<le> 2 ^ m" using b(2) by (rule real_pow2_gt)
    then have "y \<le> 2 ^ m" using c(3) by simp
    then have "1 / 2 ^ m \<le> x" using assms y by (simp add: y_def field_simps)
    then have l: "2 powi flog2 x \<le> x" by (simp add: e power_int_minus_divide)
    have "(2::real) ^ (m - 1) \<le> real c" using b(1) by (rule real_pow2_le)
    then have "2 ^ (m - 1) < y" using c(2) by linarith
    then have "x < 1 / 2 ^ (m - 1)" using assms y by (simp add: y_def field_simps)
    moreover have "flog2 x + 1 = - int (m - 1)" using e m by simp
    ultimately have "x < 2 powi (flog2 x + 1)" by (simp add: power_int_minus_divide)
    with l show ?thesis by simp
  qed
  then show "2 powi flog2 x \<le> x" and "x < 2 powi (flog2 x + 1)" by simp_all
qed

lemma flog2_eqI:
  assumes "2 powi k \<le> x" and "x < 2 powi (k + 1)"
  shows "flog2 x = k"
proof -
  have x: "0 < x" using assms(1) by (smt (verit) zero_less_power_int)
  have "(2::real) powi k < 2 powi (flog2 x + 1)"
    using assms(1) flog2_bounds(2) [OF x] by linarith
  then have a: "k < flog2 x + 1" by (rule pow2_less_D)
  have "(2::real) powi flog2 x < 2 powi (k + 1)"
    using assms(2) flog2_bounds(1) [OF x] by linarith
  then have "flog2 x < k + 1" by (rule pow2_less_D)
  with a show ?thesis by simp
qed

lemma flog2_mono:
  assumes "0 < x" and "x \<le> y"
  shows "flog2 x \<le> flog2 y"
proof -
  have "(2::real) powi flog2 x < 2 powi (flog2 y + 1)"
    using flog2_bounds(1) [OF assms(1)] flog2_bounds(2) [of y] assms by linarith
  then show ?thesis using pow2_less_D by fastforce
qed

lemma pow2_shift: "(2::real) powi (k - 52) = 2 powi k / 2 ^ 52"
  by (simp add: power_int_diff)

lemma fl_scaled:
  assumes "0 < x"
  shows "2 ^ 52 \<le> x / 2 powi (flog2 x - 52)" and "x / 2 powi (flog2 x - 52) < 2 ^ 53"
proof -
  have p: "(0::real) < 2 powi flog2 x" by simp
  have "2 powi flog2 x \<le> x" by (rule flog2_bounds(1) [OF assms])
  then show "2 ^ 52 \<le> x / 2 powi (flog2 x - 52)"
    using p by (simp add: pow2_shift field_simps)
  have "x < 2 powi (flog2 x + 1)" by (rule flog2_bounds(2) [OF assms])
  then have "x < 2 * 2 powi flog2 x" by (simp add: power_int_add)
  then show "x / 2 powi (flog2 x - 52) < 2 ^ 53"
    using p by (simp add: pow2_shift field_simps)
qed

lemma fl_pos:
  "0 < x \<Longrightarrow> fl x = of_int (round_half_even (x / 2 powi (flog2 x - 52))) * 2 powi (flog2 x - 52)"
  by (simp add: fl_def fl_mag_def Let_def)

lemma fl_minus: "fl (- x) = - fl x"
  by (simp add: fl_def)

lemma fl_mantissa:
  assumes "0 < x"
  shows "2 ^ 52 \<le> round_half_even (x / 2 powi (flog2 x - 52))"
    and "round_half_even (x / 2 powi (flog2 x - 52)) \<le> 2 ^ 53"
proof -
  have "round_half_even (of_int (2 ^ 52)) \<le> round_half_even (x / 2 powi (flog2 x - 52))"
    using fl_scaled(1) [OF assms] by (intro round_half_even_mono) simp
  then show "2 ^ 52 \<le> round_half_even (x / 2 powi (flog2 x - 52))"
    by (simp only: round_half_even_of_int)
  have "round_half_even (x / 2 powi (flog2 x - 52)) \<le> round_half_even (of_int (2 ^ 53))"
    using fl_scaled(2) [OF assms] by (intro round_half_even_mono) simp
  then show "round_half_even (x / 2 powi (flog2 x - 52)) \<le> 2 ^ 53"
    by (simp only: round_half_even_of_int)
qed

lemma fl_binade:
  assumes "0 < x"
  shows "2 powi flog2 x \<le> fl x" and "fl x \<le> 2 powi (flog2 x + 1)"
proof -
  let ?m = "round_half_even (x / 2 powi (flog2 x - 52))"
  have p: "(0::real) < 2 powi flog2 x" by simp
  have "(2::real) ^ 52 \<le> of_int ?m"
    using fl_mantissa(1) [OF assms] of_int_le_iff [of "2 ^ 52" ?m, where 'a = real] by simp
  then show "2 powi flog2 x \<le> fl x"
    using p by (simp add: fl_pos [OF assms] pow2_shift field_simps)
  have "of_int ?m \<le> (2::real) ^ 53"
    using fl_mantissa(2) [OF assms] of_int_le_iff [of ?m "2 ^ 53", where 'a = real] by simp
  then have "(of_int ?m :: real) * 2 powi flog2 x \<le> 2 ^ 53 * 2 powi flog2 x"
    using p by (intro mult_right_mono) simp_all
  then show "fl x \<le> 2 powi (flog2 x + 1)"
    by (simp add: fl_pos [OF assms] pow2_shift power_int_add field_simps)
qed

lemma fl_positive: "0 < x \<Longrightarrow> 0 < fl x"
proof -
  assume x: "0 < x"
  have "(0::real) < 2 powi flog2 x" by simp
  then show ?thesis using fl_binade(1) [OF x] by linarith
qed

lemma fl_nonneg: "0 \<le> x \<Longrightarrow> 0 \<le> fl x"
  using fl_positive [of x] by (cases "x = 0") (simp_all add: fl_def)

lemma fl_mono_pos:
  assumes "0 < x" and "x \<le> y"
  shows "fl x \<le> fl y"
proof -
  note True = assms(1) and assms = assms(2)
  then have y: "0 < y" using assms by simp
  have le: "flog2 x \<le> flog2 y" by (rule flog2_mono [OF True assms])
  show ?thesis
  proof (cases "flog2 x = flog2 y")
    case True
    have "x / 2 powi (flog2 y - 52) \<le> y / 2 powi (flog2 y - 52)"
      using assms by (simp add: divide_right_mono)
    then have "round_half_even (x / 2 powi (flog2 y - 52)) \<le> round_half_even (y / 2 powi (flog2 y - 52))"
      by (rule round_half_even_mono)
    then have "(of_int (round_half_even (x / 2 powi (flog2 y - 52))) :: real)
                 \<le> of_int (round_half_even (y / 2 powi (flog2 y - 52)))"
      by simp
    then show ?thesis
      by (simp add: fl_pos [OF \<open>0 < x\<close>] fl_pos [OF y] True mult_right_mono)
  next
    case False
    with le have "flog2 x + 1 \<le> flog2 y" by simp
    then have "(2::real) powi (flog2 x + 1) \<le> 2 powi flog2 y"
      by (intro power_int_increasing) simp_all
    then show ?thesis
      using fl_binade(2) [OF \<open>0 < x\<close>] fl_binade(1) [OF y] by linarith
  qed
qed

lemma fl_mono:
  assumes "x \<le> y"
  shows "fl x \<le> fl y"
proof -
  consider "0 < x" | "x \<le> 0" "0 \<le> y" | "y < 0" by linarith
  then show ?thesis
  proof cases
    case 1
    then show ?thesis using assms by (rule fl_mono_pos)
  next
    case 2
    have "fl x \<le> 0" using fl_nonneg [of "- x"] 2(1) by (simp add: fl_minus)
    then show ?thesis using fl_nonneg [OF 2(2)] by linarith
  next
    case 3
    then have "fl (- y) \<le> fl (- x)" using assms by (intro fl_mono_pos) simp_all
    then show ?thesis by (simp add: fl_minus)
  qed
qed

lemma fl_repr:
  assumes "0 < m" and "m < 2 ^ 53"
  shows "fl (of_int m * 2 powi j) = of_int m * 2 powi j"
proof -
  let ?x = "of_int m * 2 powi j :: real"
  let ?e = "flog2 ?x - 52"
  have x: "0 < ?x" using assms(1) by simp
  have s: "?x / 2 powi ?e = of_int m * 2 powi (j - ?e)"
    by (simp add: power_int_diff)
  have "?e \<le> j"
  proof (rule ccontr)
    assume "\<not> ?e \<le> j"
    then have "j - ?e \<le> - 1" by simp
    then have "(2::real) powi (j - ?e) \<le> 2 powi (- 1)"
      by (intro power_int_increasing) simp_all
    then have "(2::real) powi (j - ?e) \<le> 1 / 2" by simp
    moreover have "(of_int m :: real) \<le> 2 ^ 53 - 1"
      using assms(2) of_int_le_iff [of m "2 ^ 53 - 1", where 'a = real] by simp
    moreover have "(0::real) < 2 powi (j - ?e)" by simp
    moreover have "(0 :: real) < of_int m" using assms(1) by simp
    ultimately have "of_int m * 2 powi (j - ?e) \<le> (2 ^ 53 - 1) * (1 / 2 :: real)"
      by (intro mult_mono) simp_all
    then have "?x / 2 powi ?e < 2 ^ 52" unfolding s by simp
    then show False using fl_scaled(1) [OF x] by linarith
  qed
  then obtain k where k: "j - ?e = int k"
    by (metis diff_ge_0_iff_ge nonneg_int_cases)
  have "?x / 2 powi ?e = of_int (m * 2 ^ k)"
    unfolding s k by simp
  then have "round_half_even (?x / 2 powi ?e) = m * 2 ^ k"
    by (simp only: round_half_even_of_int)
  then have "fl ?x = of_int (m * 2 ^ k) * 2 powi ?e"
    by (simp only: fl_pos [OF x])
  also have "\<dots> = of_int m * (2 powi (j - ?e) * 2 powi ?e)"
    unfolding k by simp
  also have "2 powi (j - ?e) * 2 powi ?e = (2::real) powi j"
    by (simp flip: power_int_add)
  finally show ?thesis .
qed

lemma fl_of_nat:
  assumes "n \<le> 2 ^ 53"
  shows "fl (real n) = real n"
proof (cases "n = 0 \<or> n = 2 ^ 53")
  case True
  then show ?thesis
  proof
    assume "n = 0" then show ?thesis by (simp add: fl_def)
  next
    assume n: "n = 2 ^ 53"
    have "fl (of_int 1 * 2 powi 53) = of_int 1 * 2 powi 53"
      by (rule fl_repr) simp_all
    then show ?thesis by (simp add: n)
  qed
next
  case False
  with assms have "0 < int n" "int n < 2 ^ 53" by auto
  from fl_repr [OF this, of 0] show ?thesis by simp
qed

lemma fl_err:
  assumes "0 < x"
  shows "\<bar>fl x - x\<bar> \<le> x / 2 ^ 53"
proof -
  let ?e = "flog2 x - 52"
  let ?s = "x / 2 powi ?e"
  have p: "(0::real) < 2 powi ?e" by simp
  have "\<bar>of_int (round_half_even ?s) - ?s\<bar> \<le> 1 / 2" by (rule round_half_even_err)
  then have "\<bar>of_int (round_half_even ?s) - ?s\<bar> * 2 powi ?e \<le> 1 / 2 * 2 powi ?e"
    using p by (intro mult_right_mono) simp_all
  moreover have "\<bar>of_int (round_half_even ?s) - ?s\<bar> * 2 powi ?e = \<bar>fl x - x\<bar>"
  proof -
    have "\<bar>of_int (round_half_even ?s) - ?s\<bar> * 2 powi ?e
            = \<bar>(of_int (round_half_even ?s) - ?s) * 2 powi ?e\<bar>"
      by (simp add: abs_mult)
    also have "(of_int (round_half_even ?s) - ?s) * 2 powi ?e = fl x - x"
      by (simp add: fl_pos [OF assms] algebra_simps)
    finally show ?thesis .
  qed
  moreover have "1 / 2 * 2 powi ?e \<le> x / 2 ^ 53"
  proof -
    have "2 powi flog2 x \<le> x" by (rule flog2_bounds(1) [OF assms])
    then show ?thesis by (simp add: pow2_shift field_simps)
  qed
  ultimately show ?thesis by linarith
qed

lemma bisect_left_loop_spec:
  assumes "sorted a" and "lo \<le> hi" and "hi \<le> length a"
    and "\<forall>i<lo. a ! i < x" and "\<forall>i. hi \<le> i \<and> i < length a \<longrightarrow> x \<le> a ! i"
  shows "lo \<le> bisect_left_loop a x lo hi \<and> bisect_left_loop a x lo hi \<le> hi
       \<and> (\<forall>i<bisect_left_loop a x lo hi. a ! i < x)
       \<and> (\<forall>i. bisect_left_loop a x lo hi \<le> i \<and> i < length a \<longrightarrow> x \<le> a ! i)"
  using assms
proof (induction a x lo hi rule: bisect_left_loop.induct)
  case (1 a x lo hi)
  show ?case
  proof (cases "lo < hi")
    case False
    then have eq: "bisect_left_loop a x lo hi = lo"
      by (subst bisect_left_loop.simps) simp
    show ?thesis unfolding eq using "1.prems" False by auto
  next
    case True
    define mid where "mid = (lo + hi) div 2"
    have mid: "lo \<le> mid" "mid < hi" using True by (simp_all add: mid_def)
    show ?thesis
    proof (cases "a ! mid < x")
      case less: True
      have below: "\<forall>i<mid + 1. a ! i < x"
      proof (intro allI impI)
        fix i assume "i < mid + 1"
        then have "i \<le> mid" by simp
        then have "a ! i \<le> a ! mid"
          using \<open>sorted a\<close> mid(2) "1.prems"(3) by (simp add: sorted_nth_mono)
        with less show "a ! i < x" by simp
      qed
      have eq: "bisect_left_loop a x lo hi = bisect_left_loop a x (mid + 1) hi"
        using True less by (simp add: bisect_left_loop.simps [of a x lo hi] mid_def Let_def)
      have "mid + 1 \<le> bisect_left_loop a x (mid + 1) hi \<and> bisect_left_loop a x (mid + 1) hi \<le> hi
          \<and> (\<forall>i<bisect_left_loop a x (mid + 1) hi. a ! i < x)
          \<and> (\<forall>i. bisect_left_loop a x (mid + 1) hi \<le> i \<and> i < length a \<longrightarrow> x \<le> a ! i)"
        using "1.IH"(1) [OF True mid_def less \<open>sorted a\<close> _ "1.prems"(3) below "1.prems"(5)] mid(2)
        by simp
      then show ?thesis unfolding eq using mid(1) by auto
    next
      case ge: False
      have above: "\<forall>i. mid \<le> i \<and> i < length a \<longrightarrow> x \<le> a ! i"
      proof (intro allI impI)
        fix i assume "mid \<le> i \<and> i < length a"
        then have "a ! mid \<le> a ! i"
          using \<open>sorted a\<close> by (simp add: sorted_nth_mono)
        with ge show "x \<le> a ! i" by simp
      qed
      have eq: "bisect_left_loop a x lo hi = bisect_left_loop a x lo mid"
        using True ge by (simp add: bisect_left_loop.simps [of a x lo hi] mid_def Let_def)
      have hi': "mid \<le> length a" using mid(2) "1.prems"(3) by simp
      have "lo \<le> bisect_left_loop a x lo mid \<and> bisect_left_loop a x lo mid \<le> mid
          \<and> (\<forall>i<bisect_left_loop a x lo mid. a ! i < x)
          \<and> (\<forall>i. bisect_left_loop a x lo mid \<le> i \<and> i < length a \<longrightarrow> x \<le> a ! i)"
        using "1.IH"(2) [OF True mid_def ge \<open>sorted a\<close> mid(1) hi' "1.prems"(4) above]
        by simp
      then show ?thesis unfolding eq using mid(2) by auto
    qed
  qed
qed

lemma bisect_left_spec:
  assumes "sorted a"
  shows "bisect_left a x \<le> length a"
    and "\<forall>i<bisect_left a x. a ! i < x"
    and "\<forall>i. bisect_left a x \<le> i \<and> i < length a \<longrightarrow> x \<le> a ! i"
proof -
  have "0 \<le> bisect_left_loop a x 0 (length a) \<and> bisect_left_loop a x 0 (length a) \<le> length a
       \<and> (\<forall>i<bisect_left_loop a x 0 (length a). a ! i < x)
       \<and> (\<forall>i. bisect_left_loop a x 0 (length a) \<le> i \<and> i < length a \<longrightarrow> x \<le> a ! i)"
    by (rule bisect_left_loop_spec [OF assms]) auto
  then show "bisect_left a x \<le> length a"
    and "\<forall>i<bisect_left a x. a ! i < x"
    and "\<forall>i. bisect_left a x \<le> i \<and> i < length a \<longrightarrow> x \<le> a ! i"
    by (simp_all add: bisect_left_def)
qed

lemma bisect_left_le_length: "bisect_left a x \<le> length a"
proof -
  have "lo \<le> hi \<Longrightarrow> bisect_left_loop a x lo hi \<le> hi" for lo hi
  proof (induction a x lo hi rule: bisect_left_loop.induct)
    case (1 a x lo hi)
    show ?case
    proof (cases "lo < hi")
      case False
      then have "bisect_left_loop a x lo hi = lo"
        by (subst bisect_left_loop.simps) simp
      with "1.prems" show ?thesis by simp
    next
      case True
      then have m: "lo \<le> (lo + hi) div 2" "(lo + hi) div 2 + 1 \<le> hi" by simp_all
      show ?thesis
        using True "1.IH"(1) [OF True refl _ m(2)] "1.IH"(2) [OF True refl _ m(1)] m
        by (auto simp: bisect_left_loop.simps [of a x lo hi] Let_def)
    qed
  qed
  then show ?thesis by (simp add: bisect_left_def)
qed

lemma filter_prefix:
  assumes "r \<le> length a" and "\<forall>i<r. P (a ! i)" and "\<forall>i. r \<le> i \<and> i < length a \<longrightarrow> \<not> P (a ! i)"
  shows "filter P a = take r a"
proof -
  have "\<forall>y \<in> set (take r a). P y"
    using assms(1,2) by (auto simp: in_set_conv_nth)
  then have t: "filter P (take r a) = take r a" by simp
  have "\<forall>y \<in> set (drop r a). \<not> P y"
    using assms(1,3) by (auto simp: in_set_conv_nth)
  then have d: "filter P (drop r a) = []" by simp
  have "filter P a = filter P (take r a @ drop r a)" by simp
  also have "\<dots> = take r a" unfolding filter_append t d by simp
  finally show ?thesis .
qed

lemma bisect_left_count:
  assumes "sorted a"
  shows "bisect_left a x = length (filter (\<lambda>b. b < x) a)"
proof -
  have "filter (\<lambda>b. b < x) a = take (bisect_left a x) a"
    using bisect_left_spec [OF assms, of x] by (intro filter_prefix) (auto simp: not_less)
  then show ?thesis using bisect_left_spec(1) [OF assms, of x] by simp
qed

lemma assign_loop_result:
  assumes "length bb < length bs"
  shows "\<exists>bs'. assign_loop bb bs xs = Inr bs' \<and> length bs' = length bs
           \<and> (\<forall>j<length bs. bs' ! j = bs ! j @ filter (\<lambda>x. bisect_left bb x = j) xs)"
  using assms
proof (induction xs arbitrary: bs)
  case Nil
  then show ?case by simp
next
  case (Cons x xs)
  define k where "k = bisect_left bb x"
  define bs1 where "bs1 = bs[k := bs ! k @ [x]]"
  have k: "k < length bs" using bisect_left_le_length [of bb x] Cons.prems by (simp add: k_def)
  have len1: "length bb < length bs1" using Cons.prems by (simp add: bs1_def)
  from Cons.IH [OF len1] obtain bs' where r: "assign_loop bb bs1 xs = Inr bs'"
    "length bs' = length bs1"
    "\<forall>j<length bs1. bs' ! j = bs1 ! j @ filter (\<lambda>x. bisect_left bb x = j) xs"
    by blast
  have "assign_loop bb bs (x # xs) = Inr bs'"
    using k r(1) by (simp add: k_def bs1_def Let_def)
  moreover have "length bs' = length bs" using r(2) by (simp add: bs1_def)
  moreover have "\<forall>j<length bs. bs' ! j = bs ! j @ filter (\<lambda>y. bisect_left bb y = j) (x # xs)"
  proof (intro allI impI)
    fix j assume j: "j < length bs"
    then have "bs' ! j = bs1 ! j @ filter (\<lambda>x. bisect_left bb x = j) xs"
      using r(3) by (simp add: bs1_def)
    then show "bs' ! j = bs ! j @ filter (\<lambda>y. bisect_left bb y = j) (x # xs)"
      using j k by (cases "j = k") (auto simp: bs1_def k_def)
  qed
  ultimately show ?case by blast
qed

lemma concat_loop_eq: "concat_loop bs acc = acc @ concat (map sort bs)"
  by (induction bs arbitrary: acc) simp_all

lemma mset_concat_filter_less:
  "mset (concat (map (\<lambda>j. filter (\<lambda>x. f x = j) xs) [0..<m])) = mset (filter (\<lambda>x. f x < m) xs)"
proof (induction m)
  case 0
  then show ?case by simp
next
  case (Suc m)
  have "mset (filter (\<lambda>x. f x < m) xs) + mset (filter (\<lambda>x. f x = m) xs)
          = mset (filter (\<lambda>x. f x < Suc m) xs)"
    by (induction xs) (auto simp: less_Suc_eq)
  with Suc show ?case by simp
qed

lemma mset_concat_filter_index:
  assumes "\<forall>x \<in> set xs. f x < m"
  shows "mset (concat (map (\<lambda>j. filter (\<lambda>x. f x = j) xs) [0..<m])) = mset xs"
proof -
  have "filter (\<lambda>x. f x < m) xs = xs" using assms by simp
  then show ?thesis by (simp add: mset_concat_filter_less)
qed

lemma sorted_concat:
  assumes "\<forall>b \<in> set bs. sorted b"
    and "\<forall>i j. i < j \<and> j < length bs \<longrightarrow> (\<forall>x \<in> set (bs ! i). \<forall>y \<in> set (bs ! j). x \<le> y)"
  shows "sorted (concat bs)"
  using assms
proof (induction bs)
  case Nil
  then show ?case by simp
next
  case (Cons b bs)
  have "\<forall>i j. i < j \<and> j < length bs \<longrightarrow> (\<forall>x \<in> set (bs ! i). \<forall>y \<in> set (bs ! j). x \<le> y)"
  proof (intro allI impI)
    fix i j assume "i < j \<and> j < length bs"
    then have "Suc i < Suc j \<and> Suc j < length (b # bs)" by simp
    from Cons.prems(2) [rule_format, OF this]
    show "\<forall>x \<in> set (bs ! i). \<forall>y \<in> set (bs ! j). x \<le> y" by simp
  qed
  then have s: "sorted (concat bs)" using Cons.IH Cons.prems(1) by simp
  have "\<forall>x \<in> set b. \<forall>y \<in> set (concat bs). x \<le> y"
  proof (intro ballI)
    fix x y assume x: "x \<in> set b" and "y \<in> set (concat bs)"
    then obtain b' where "b' \<in> set bs" "y \<in> set b'" by auto
    then obtain j where j: "j < length bs" "y \<in> set (bs ! j)"
      by (metis in_set_conv_nth)
    have "0 < Suc j \<and> Suc j < length (b # bs)" using j(1) by simp
    from Cons.prems(2) [rule_format, OF this] x j(2) show "x \<le> y" by simp
  qed
  then show ?case using s Cons.prems(1) by (simp add: sorted_append)
qed

lemma fl_of_int:
  assumes "0 \<le> k" and "k \<le> 2 ^ 53"
  shows "fl (of_int k) = of_int k"
proof -
  have "nat k \<le> 2 ^ 53" using assms by (simp add: nat_le_iff)
  from fl_of_nat [OF this] show ?thesis using assms(1) by simp
qed

lemma fl_upper:
  assumes "0 \<le> x"
  shows "fl x \<le> x + x / 2 ^ 53"
proof (cases "x = 0")
  case True
  then show ?thesis by (simp add: fl_def)
next
  case False
  with assms have "0 < x" by simp
  from fl_err [OF this] show ?thesis by linarith
qed

lemma int_of_float_nonneg: "0 \<le> x \<Longrightarrow> int_of_float x = \<lfloor>x\<rfloor>"
  by (simp add: int_of_float_def)

lemma qidx_arg_nonneg:
  assumes "0 \<le> i" and "0 < nb" and "1 \<le> ss"
  shows "0 \<le> fl (fl (of_int i / of_int nb) * fl (of_int (ss - 1)))"
proof -
  have "0 \<le> fl (of_int i / of_int nb)" using assms by (intro fl_nonneg) simp
  moreover have "0 \<le> fl (of_int (ss - 1))" using assms by (intro fl_nonneg) simp
  ultimately have "0 \<le> fl (of_int i / of_int nb) * fl (of_int (ss - 1))"
    by (rule mult_nonneg_nonneg)
  then show ?thesis by (rule fl_nonneg)
qed

lemma quantile_index_eq:
  assumes "0 \<le> i" and "0 < nb" and "1 \<le> ss"
  shows "quantile_index i nb ss = Inr (qidx i nb ss)"
proof -
  have "0 \<le> fl (fl (of_int i / of_int nb) * fl (of_int (ss - 1)))"
    using assms by (rule qidx_arg_nonneg)
  then show ?thesis
    using assms(2)
    by (simp add: quantile_index_def int_truediv_def float_mul_def float_of_int_def
        qidx_def int_of_float_nonneg)
qed

lemma qidx_nonneg:
  assumes "0 \<le> i" and "0 < nb" and "1 \<le> ss"
  shows "0 \<le> qidx i nb ss"
proof -
  have "0 \<le> fl (fl (of_int i / of_int nb) * fl (of_int (ss - 1)))"
    using assms by (rule qidx_arg_nonneg)
  then show ?thesis by (simp add: qidx_def)
qed

lemma qidx_mono:
  assumes "i \<le> j" and "0 < nb" and "1 \<le> ss"
  shows "qidx i nb ss \<le> qidx j nb ss"
proof -
  have "(of_int i :: real) / of_int nb \<le> of_int j / of_int nb"
    using assms(1,2) by (simp add: divide_right_mono)
  then have "fl (of_int i / of_int nb) \<le> fl (of_int j / of_int nb)" by (rule fl_mono)
  moreover have "0 \<le> fl (of_int (ss - 1))" using assms(3) by (intro fl_nonneg) simp
  ultimately have "fl (of_int i / of_int nb) * fl (of_int (ss - 1))
                     \<le> fl (of_int j / of_int nb) * fl (of_int (ss - 1))"
    by (rule mult_right_mono)
  then show ?thesis unfolding qidx_def by (intro floor_mono fl_mono)
qed

lemma qidx_less:
  assumes "0 \<le> i" and "i < nb" and "nb \<le> 2 ^ 32" and "1 \<le> ss"
  shows "qidx i nb ss < ss"
proof (cases "ss = 1")
  case True
  then show ?thesis by (simp add: qidx_def fl_def)
next
  case False
  define a :: real where "a = of_int (ss - 1)"
  define c :: real where "c = of_int (2 ^ 32 - 1) * 2 powi (- 32)"
  define q where "q = fl (of_int i / of_int nb)"
  define F where "F = fl a"
  have a: "1 \<le> a" using False assms(4) by (simp add: a_def)
  have c: "c = 1 - 1 / 2 ^ 32" by (simp add: c_def power_int_minus_divide)
  have nb: "(0::real) < of_int nb" "(of_int nb :: real) \<le> 2 ^ 32"
    using assms(1,2) apply simp
    using assms(3) of_int_le_iff [of nb "2 ^ 32", where 'a = real] by simp
  have "(of_int i :: real) \<le> of_int nb - 1"
    using assms(2) of_int_le_iff [of i "nb - 1", where 'a = real] by simp
  then have "(of_int i :: real) / of_int nb \<le> (of_int nb - 1) / of_int nb"
    using nb(1) by (simp add: divide_right_mono)
  also have "\<dots> = 1 - 1 / of_int nb" using nb(1) by (simp add: field_simps)
  also have "\<dots> \<le> c" unfolding c using nb by (simp add: field_simps)
  finally have "q \<le> fl c" unfolding q_def by (rule fl_mono)
  moreover have "fl c = c" unfolding c_def by (rule fl_repr) simp_all
  ultimately have q: "q \<le> c" by simp
  have q0: "0 \<le> q" unfolding q_def using assms(1) nb(1) by (intro fl_nonneg) simp
  have F0: "0 \<le> F" unfolding F_def using a by (intro fl_nonneg) simp
  have F: "F \<le> a + a / 2 ^ 53" unfolding F_def using a by (intro fl_upper) simp
  have c0: "0 \<le> c" unfolding c by simp
  define X where "X = q * F"
  define Y where "Y = c * (a + a / 2 ^ 53)"
  have "X \<le> Y"
    unfolding X_def Y_def using q F q0 F0 c0 by (intro mult_mono) simp_all
  moreover have "fl X \<le> X + X / 2 ^ 53"
    unfolding X_def using q0 F0 by (intro fl_upper) simp
  moreover have "X + X / 2 ^ 53 \<le> Y + Y / 2 ^ 53"
    using \<open>X \<le> Y\<close> by (intro add_mono divide_right_mono) simp_all
  ultimately have "fl X \<le> Y + Y / 2 ^ 53"
    by (meson order_trans)
  then have "fl (q * F) \<le> c * (a + a / 2 ^ 53) + c * (a + a / 2 ^ 53) / 2 ^ 53"
    by (simp only: X_def Y_def)
  also have "\<dots> = (c * (1 + 1 / 2 ^ 53) * (1 + 1 / 2 ^ 53)) * a"
    by (simp add: algebra_simps)
  also have "\<dots> < 1 * a"
    using a unfolding c by (intro mult_strict_right_mono) simp_all
  finally have "fl (q * F) < of_int (ss - 1)" by (simp add: a_def)
  then have "\<lfloor>fl (q * F)\<rfloor> < ss - 1" by (simp only: floor_less_iff)
  then show ?thesis by (simp add: qidx_def q_def F_def a_def)
qed

lemma calc_sample_size_bounds:
  assumes "1 \<le> n"
  shows "1 \<le> calc_sample_size n" and "calc_sample_size n \<le> n"
  using assms by (simp_all add: calc_sample_size_def)

lemma calc_sample_size_exact:
  assumes "0 \<le> n" and "n < 2 ^ 52"
  shows "calc_sample_size n = min n (max 1000 (n div 100))"
proof -
  define p :: real where "p = of_int n * d001"
  define q where "q = n div 100"
  have n: "(0::real) \<le> of_int n" "(of_int n :: real) < 2 ^ 52"
    using assms(1) apply simp
    using assms(2) of_int_less_iff [of n "2 ^ 52", where 'a = real] by simp
  have fn: "fl (of_int n) = of_int n" using assms by (intro fl_of_int) simp_all
  have p0: "0 \<le> p" using n(1) by (simp add: p_def d001_def)
  have q0: "0 \<le> q" "q \<le> 2 ^ 53" using assms by (simp_all add: q_def)
  have "100 * q \<le> n" "n \<le> 100 * q + 99" unfolding q_def by presburger+
  then have qn: "100 * (of_int q :: real) \<le> of_int n" "(of_int n :: real) \<le> 100 * of_int q + 99"
    using of_int_le_iff [of "100 * q" n, where 'a = real]
      of_int_le_iff [of n "100 * q + 99", where 'a = real] by simp_all
  have pe: "p = of_int n * (5764607523034235 / 576460752303423488)"
    by (simp add: p_def d001_def)
  have "of_int q \<le> p" using qn(1) n(1) unfolding pe by linarith
  then have "fl (of_int q) \<le> fl p" by (rule fl_mono)
  then have lo: "of_int q \<le> fl p" using fl_of_int [OF q0] by simp
  have "fl p \<le> p + p / 2 ^ 53" using p0 by (rule fl_upper)
  then have hi: "fl p < of_int (q + 1)" using qn(2) n unfolding pe by simp
  have "\<lfloor>fl p\<rfloor> = q"
    using lo hi by (simp add: floor_eq_iff)
  moreover have "0 \<le> fl p" using p0 by (rule fl_nonneg)
  ultimately show ?thesis
    by (simp add: calc_sample_size_def float_mul_def float_of_int_def fn int_of_float_nonneg
        p_def q_def)
qed

lemma calc_num_buckets_eq:
  assumes "0 \<le> n"
  shows "calc_num_buckets n = Inr (max 1 \<lfloor>fl (sqrt (fl (of_int n)))\<rfloor>)"
proof -
  have "0 \<le> fl (of_int n)" using assms by (intro fl_nonneg) simp
  then have "0 \<le> fl (sqrt (fl (of_int n)))" by (intro fl_nonneg) simp
  then show ?thesis using assms
    by (simp add: calc_num_buckets_def math_sqrt_def float_of_int_def int_of_float_nonneg)
qed

lemma calc_num_buckets_bounds:
  assumes "0 \<le> n" and "n \<le> 2 ^ 64"
  shows "\<exists>nb. calc_num_buckets n = Inr nb \<and> 1 \<le> nb \<and> nb \<le> 2 ^ 32"
proof -
  have "(of_int n :: real) \<le> of_int 1 * 2 powi 64"
    using assms(2) of_int_le_iff [of n "2 ^ 64", where 'a = real] by simp
  then have "fl (of_int n) \<le> fl (of_int 1 * 2 powi 64)" by (rule fl_mono)
  also have "\<dots> = of_int 1 * 2 powi 64" by (rule fl_repr) simp_all
  finally have "fl (of_int n) \<le> (2 ^ 32)\<^sup>2" by simp
  then have "sqrt (fl (of_int n)) \<le> 2 ^ 32" by (intro real_le_lsqrt) simp_all
  then have "sqrt (fl (of_int n)) \<le> of_int 1 * 2 powi 32" by simp
  then have "fl (sqrt (fl (of_int n))) \<le> fl (of_int 1 * 2 powi 32)" by (rule fl_mono)
  also have "\<dots> = of_int 1 * 2 powi 32" by (rule fl_repr) simp_all
  finally have "fl (sqrt (fl (of_int n))) \<le> of_int (2 ^ 32)" by simp
  then have "\<lfloor>fl (sqrt (fl (of_int n)))\<rfloor> \<le> 2 ^ 32"
    using floor_mono [of "fl (sqrt (fl (of_int n)))" "of_int (2 ^ 32)"] by (simp only: floor_of_int)
  then show ?thesis by (simp add: calc_num_buckets_eq [OF assms(1)])
qed

lemma calc_num_buckets_exact:
  assumes "0 \<le> k" and "k * k \<le> n" and "n < (k + 1) * (k + 1)" and "n < 2 ^ 52"
  shows "calc_num_buckets n = Inr (max 1 k)"
proof -
  define m :: real where "m = of_int k + 1"
  define x :: real where "x = sqrt (of_int n)"
  have "0 \<le> k * k" by simp
  then have n0: "0 \<le> n" using assms(2) by (rule order_trans)
  have fn: "fl (of_int n) = of_int n" using n0 assms(4) by (intro fl_of_int) simp_all
  have kk: "k * k < 2 ^ 26 * 2 ^ 26" using assms(2,4) by simp
  have k26: "k < 2 ^ 26"
  proof (rule ccontr)
    assume "\<not> k < 2 ^ 26"
    then have "2 ^ 26 * 2 ^ 26 \<le> k * k" by (intro mult_mono) simp_all
    with kk show False by simp
  qed
  then have m26: "m \<le> 2 ^ 26" "1 \<le> m"
    using of_int_le_iff [of "k + 1" "2 ^ 26", where 'a = real] assms(1) by (simp_all add: m_def)
  have nr: "(of_int k :: real) * of_int k \<le> of_int n" "(of_int n :: real) \<le> m * m - 1" "(of_int n :: real) < 2 ^ 52"
    using assms(2) of_int_le_iff [of "k * k" n, where 'a = real] apply simp
    using assms(3) of_int_le_iff [of n "(k + 1) * (k + 1) - 1", where 'a = real] apply (simp add: m_def)
    using assms(4) of_int_less_iff [of n "2 ^ 52", where 'a = real] by simp
  have lo: "of_int k \<le> x"
    unfolding x_def using nr(1) assms(1) by (intro real_le_rsqrt) (simp add: power2_eq_square)
  have "(m - 1 / 2 ^ 27)\<^sup>2 = m * m - m / 2 ^ 26 + 1 / 2 ^ 54"
    by (simp add: power2_eq_square algebra_simps)
  then have "of_int n \<le> (m - 1 / 2 ^ 27)\<^sup>2" using nr(2) m26 by simp
  then have hi: "x \<le> m - 1 / 2 ^ 27"
    unfolding x_def using m26 by (intro real_le_lsqrt) simp_all
  have "x < 2 ^ 26"
    unfolding x_def using nr(3) by (intro real_less_lsqrt) simp_all
  moreover have x0: "0 \<le> x" using n0 by (simp add: x_def)
  moreover have "fl x \<le> x + x / 2 ^ 53" using x0 by (rule fl_upper)
  ultimately have "fl x < m" using hi by simp
  then have up: "fl x < of_int (k + 1)" by (simp add: m_def)
  have "fl (of_int k) \<le> fl x" using lo by (rule fl_mono)
  moreover have "fl (of_int k) = of_int k" using assms(1) k26 by (intro fl_of_int) simp_all
  ultimately have "of_int k \<le> fl x" by simp
  with up have "\<lfloor>fl x\<rfloor> = k" by (simp add: floor_eq_iff)
  then show ?thesis by (simp add: calc_num_buckets_eq [OF n0] fn x_def)
qed

lemma mset_map_nth_subset:
  assumes "distinct js" and "\<forall>j \<in> set js. j < length xs"
  shows "mset (map (\<lambda>j. xs ! j) js) \<subseteq># mset xs"
proof -
  have "set js \<subseteq> {0..<length xs}" using assms(2) by auto
  then have "mset_set (set js) \<subseteq># mset_set {0..<length xs}"
    by (intro subset_imp_msubset_mset_set) simp_all
  then have "mset js \<subseteq># mset [0..<length xs]"
    using assms(1) by (simp add: mset_set_set)
  then have "image_mset (\<lambda>j. xs ! j) (mset js) \<subseteq># image_mset (\<lambda>j. xs ! j) (mset [0..<length xs])"
    by (rule image_mset_subseteq_mono)
  moreover have "map (\<lambda>j. xs ! j) [0..<length xs] = xs" by (rule map_nth)
  ultimately show ?thesis by (metis mset_map)
qed

lemma random_sample_ok:
  assumes "sampler_ok smp" and "0 \<le> k" and "k \<le> int (length population)"
  shows "random_sample smp g population k
           = Inr (map (\<lambda>j. population ! j) (fst (smp g (length population) (nat k))),
                  snd (smp g (length population) (nat k)))"
    and "length (fst (smp g (length population) (nat k))) = nat k"
    and "mset (map (\<lambda>j. population ! j) (fst (smp g (length population) (nat k)))) \<subseteq># mset population"
proof -
  have k: "nat k \<le> length population" using assms(2,3) by simp
  show "random_sample smp g population k
           = Inr (map (\<lambda>j. population ! j) (fst (smp g (length population) (nat k))),
                  snd (smp g (length population) (nat k)))"
    using assms(2,3) by (simp add: random_sample_def case_prod_beta)
  show "length (fst (smp g (length population) (nat k))) = nat k"
    using assms(1) k by (simp add: sampler_ok_def)
  show "mset (map (\<lambda>j. population ! j) (fst (smp g (length population) (nat k)))) \<subseteq># mset population"
    using assms(1) k by (intro mset_map_nth_subset) (simp_all add: sampler_ok_def)
qed

lemma list_get_in_range:
  "0 \<le> i \<Longrightarrow> i < int (length xs) \<Longrightarrow> list_get xs i = Inr (xs ! nat i)"
  by (simp add: list_get_def)

lemma boundaries_loop_map:
  assumes "0 < nb" and "1 \<le> ss"
    and "\<forall>i \<in> set is. 0 \<le> i \<and> qidx i nb ss < int (length smpl)"
  shows "boundaries_loop smpl nb ss is acc = Inr (acc @ map (\<lambda>i. smpl ! nat (qidx i nb ss)) is)"
  using assms(3)
proof (induction "is" arbitrary: acc)
  case Nil
  then show ?case by simp
next
  case (Cons i "is")
  have i: "0 \<le> i" "qidx i nb ss < int (length smpl)" using Cons.prems by simp_all
  have q: "quantile_index i nb ss = Inr (qidx i nb ss)"
    using i(1) assms(1,2) by (rule quantile_index_eq)
  have g: "list_get smpl (qidx i nb ss) = Inr (smpl ! nat (qidx i nb ss))"
    using qidx_nonneg [OF i(1) assms(1,2)] i(2) by (rule list_get_in_range)
  show ?case using Cons.IH Cons.prems by (simp add: q g)
qed

lemma sorted_boundaries:
  assumes "sorted smpl" and "0 < nb" and "1 \<le> ss"
    and "\<forall>i \<in> set is. 0 \<le> i \<and> qidx i nb ss < int (length smpl)"
    and "sorted is"
  shows "sorted (map (\<lambda>i. smpl ! nat (qidx i nb ss)) is)"
proof -
  have "sorted_wrt (\<lambda>i j. smpl ! nat (qidx i nb ss) \<le> smpl ! nat (qidx j nb ss)) is"
  proof (rule sorted_wrt_mono_rel [of "is" "(\<le>)"])
    fix i j assume ij: "i \<in> set is" "j \<in> set is" "i \<le> j"
    have "qidx i nb ss \<le> qidx j nb ss" using ij(3) assms(2,3) by (rule qidx_mono)
    moreover have "0 \<le> qidx i nb ss" using assms(2-4) ij(1) by (intro qidx_nonneg) auto
    moreover have "qidx j nb ss < int (length smpl)" using assms(4) ij(2) by simp
    ultimately have "nat (qidx i nb ss) \<le> nat (qidx j nb ss)" "nat (qidx j nb ss) < length smpl"
      by simp_all
    then show "smpl ! nat (qidx i nb ss) \<le> smpl ! nat (qidx j nb ss)"
      using assms(1) by (simp add: sorted_nth_mono)
  next
    show "sorted is" by (rule assms(5))
  qed
  then show ?thesis by (simp add: sorted_map)
qed

lemma bsq_body_eq:
  fixes data :: "'a::linorder list"
  assumes "sampler_ok smp" and "data \<noteq> []" and "length data < 2 ^ 63"
  shows "bsq_body smp g data = Inr (body_spec smp g data)"
proof -
  let ?n = "int (length data)"
  let ?nb = "max 1 \<lfloor>fl (sqrt (fl (of_int ?n)))\<rfloor>"
  let ?ss = "calc_sample_size ?n"
  let ?js = "fst (smp g (length data) (nat ?ss))"
  let ?smpl = "sort (map (\<lambda>j. data ! j) ?js)"
  let ?bb = "map (\<lambda>i. ?smpl ! nat (qidx i ?nb ?ss)) [1 .. ?nb - 1]"
  let ?bs = "map (\<lambda>j. filter (\<lambda>x. bisect_left ?bb x = j) data) [0 ..< nat ?nb]"
  have n: "1 \<le> ?n" "?n \<le> 2 ^ 64"
    using assms(2) apply (cases data; simp)
    using assms(3) by simp
  have cnb: "calc_num_buckets ?n = Inr ?nb"
    using n(1) by (simp add: calc_num_buckets_eq)
  obtain nb' where "calc_num_buckets ?n = Inr nb'" "1 \<le> nb'" "nb' \<le> 2 ^ 32"
    using calc_num_buckets_bounds [of ?n] n by auto
  with cnb have nb: "1 \<le> ?nb" "?nb \<le> 2 ^ 32" by simp_all
  have ss: "1 \<le> ?ss" "?ss \<le> ?n"
    using calc_sample_size_bounds [OF n(1)] by simp_all
  have rs: "random_sample smp g data ?ss
              = Inr (map (\<lambda>j. data ! j) ?js, snd (smp g (length data) (nat ?ss)))"
    and ljs: "length ?js = nat ?ss"
    using random_sample_ok(1,2) [OF assms(1), of ?ss data g] ss by simp_all
  have lsm: "int (length ?smpl) = ?ss" using ljs ss(1) by simp
  have rng: "\<forall>i \<in> set [1 .. ?nb - 1]. 0 \<le> i \<and> qidx i ?nb ?ss < int (length ?smpl)"
  proof
    fix i assume "i \<in> set [1 .. ?nb - 1]"
    then have i: "1 \<le> i" "i < ?nb" by simp_all
    then have "qidx i ?nb ?ss < ?ss" using nb(2) ss(1) by (intro qidx_less) simp_all
    then show "0 \<le> i \<and> qidx i ?nb ?ss < int (length ?smpl)" using i(1) lsm by simp
  qed
  have nb0: "0 < ?nb" by simp
  have bl: "boundaries_loop ?smpl ?nb ?ss [1 .. ?nb - 1] [] = Inr ?bb"
    using boundaries_loop_map [OF nb0 ss(1) rng, of "[]"] by simp
  have lbb: "length ?bb < length (replicate (nat ?nb) ([]::'a list))"
    by simp
  from assign_loop_result [OF lbb, of data]
  obtain bs' where al: "assign_loop ?bb (replicate (nat ?nb) []) data = Inr bs'"
    and lbs: "length bs' = nat ?nb"
    and nbs: "\<forall>j<nat ?nb. bs' ! j = filter (\<lambda>x. bisect_left ?bb x = j) data"
    by auto
  have "bs' = ?bs"
    using lbs nbs by (intro nth_equalityI) simp_all
  with al have al': "assign_loop ?bb (replicate (nat ?nb) []) data = Inr ?bs" by simp
  show ?thesis
    unfolding bsq_body_def body_spec_def Let_def
    by (simp only: cnb rs bl al' concat_loop_eq sum.case prod.case append_Nil)
qed

lemma body_spec_sel:
  "num_buckets (body_spec smp g data) = max 1 \<lfloor>fl (sqrt (fl (of_int (int (length data)))))\<rfloor>"
  "sample_size (body_spec smp g data) = calc_sample_size (int (length data))"
  "sample (body_spec smp g data)
     = sort (map (\<lambda>j. data ! j)
         (fst (smp g (length data) (nat (sample_size (body_spec smp g data))))))"
  "bucket_boundaries (body_spec smp g data)
     = map (\<lambda>i. sample (body_spec smp g data)
                  ! nat (qidx i (num_buckets (body_spec smp g data)) (sample_size (body_spec smp g data))))
         [1 .. num_buckets (body_spec smp g data) - 1]"
  "buckets (body_spec smp g data)
     = map (\<lambda>j. filter (\<lambda>x. bisect_left (bucket_boundaries (body_spec smp g data)) x = j) data)
         [0 ..< nat (num_buckets (body_spec smp g data))]"
  "sorted_data (body_spec smp g data) = concat (map sort (buckets (body_spec smp g data)))"
  "rng (body_spec smp g data)
     = snd (smp g (length data) (nat (sample_size (body_spec smp g data))))"
  by (simp_all add: body_spec_def Let_def)

lemma body_num_buckets:
  assumes "data \<noteq> []" and "length data < 2 ^ 63"
  shows "1 \<le> num_buckets (body_spec smp g data)"
    and "num_buckets (body_spec smp g data) \<le> 2 ^ 32"
    and "calc_num_buckets (int (length data)) = Inr (num_buckets (body_spec smp g data))"
proof -
  have n: "0 \<le> int (length data)" "int (length data) \<le> 2 ^ 64" using assms(2) by simp_all
  show c: "calc_num_buckets (int (length data)) = Inr (num_buckets (body_spec smp g data))"
    by (simp add: calc_num_buckets_eq body_spec_sel(1))
  from calc_num_buckets_bounds [OF n] c
  show "1 \<le> num_buckets (body_spec smp g data)" "num_buckets (body_spec smp g data) \<le> 2 ^ 32"
    by simp_all
qed

lemma body_sample_size:
  assumes "data \<noteq> []"
  shows "1 \<le> sample_size (body_spec smp g data)"
    and "sample_size (body_spec smp g data) \<le> int (length data)"
proof -
  have "1 \<le> int (length data)" using assms by (cases data) simp_all
  from calc_sample_size_bounds [OF this]
  show "1 \<le> sample_size (body_spec smp g data)"
    "sample_size (body_spec smp g data) \<le> int (length data)"
    by (simp_all add: body_spec_sel(2))
qed

lemma body_sample:
  assumes "sampler_ok smp" and "data \<noteq> []"
  shows "sorted (sample (body_spec smp g data))"
    and "int (length (sample (body_spec smp g data))) = sample_size (body_spec smp g data)"
    and "mset (sample (body_spec smp g data)) \<subseteq># mset data"
proof -
  let ?ss = "sample_size (body_spec smp g data)"
  note ss = body_sample_size [OF assms(2), of smp g]
  show "sorted (sample (body_spec smp g data))" by (simp add: body_spec_sel(3))
  have "length (fst (smp g (length data) (nat ?ss))) = nat ?ss"
    using random_sample_ok(2) [OF assms(1), of ?ss data g] ss by simp
  then show "int (length (sample (body_spec smp g data))) = ?ss"
    using ss(1) by (simp add: body_spec_sel(3))
  show "mset (sample (body_spec smp g data)) \<subseteq># mset data"
    using random_sample_ok(3) [OF assms(1), of ?ss data g] ss by (simp add: body_spec_sel(3))
qed

lemma body_index_range:
  assumes "sampler_ok smp" and "data \<noteq> []" and "length data < 2 ^ 63"
    and "1 \<le> i" and "i < num_buckets (body_spec smp g data)"
  shows "0 \<le> qidx i (num_buckets (body_spec smp g data)) (sample_size (body_spec smp g data))"
    and "qidx i (num_buckets (body_spec smp g data)) (sample_size (body_spec smp g data))
           < int (length (sample (body_spec smp g data)))"
    and "quantile_index i (num_buckets (body_spec smp g data)) (sample_size (body_spec smp g data))
           = Inr (qidx i (num_buckets (body_spec smp g data)) (sample_size (body_spec smp g data)))"
proof -
  let ?nb = "num_buckets (body_spec smp g data)"
  let ?ss = "sample_size (body_spec smp g data)"
  note nb = body_num_buckets(1,2) [OF assms(2,3), of smp g]
  note ss = body_sample_size [OF assms(2), of smp g]
  have i0: "0 \<le> i" and nb0: "0 < ?nb" using assms(4) nb(1) by simp_all
  show "0 \<le> qidx i ?nb ?ss" using i0 nb0 ss(1) by (rule qidx_nonneg)
  have "qidx i ?nb ?ss < ?ss" using i0 assms(5) nb(2) ss(1) by (rule qidx_less)
  then show "qidx i ?nb ?ss < int (length (sample (body_spec smp g data)))"
    by (simp add: body_sample(2) [OF assms(1,2)])
  show "quantile_index i ?nb ?ss = Inr (qidx i ?nb ?ss)"
    using i0 nb0 ss(1) by (rule quantile_index_eq)
qed

lemma body_boundaries:
  assumes "sampler_ok smp" and "data \<noteq> []" and "length data < 2 ^ 63"
  shows "sorted (bucket_boundaries (body_spec smp g data))"
    and "int (length (bucket_boundaries (body_spec smp g data))) = num_buckets (body_spec smp g data) - 1"
proof -
  let ?nb = "num_buckets (body_spec smp g data)"
  let ?ss = "sample_size (body_spec smp g data)"
  note nb = body_num_buckets(1,2) [OF assms(2,3), of smp g]
  note ss = body_sample_size [OF assms(2), of smp g]
  have nb0: "0 < ?nb" using nb(1) by simp
  have "\<forall>i \<in> set [1 .. ?nb - 1]. 0 \<le> i \<and> qidx i ?nb ?ss < int (length (sample (body_spec smp g data)))"
    using body_index_range(2) [OF assms] by auto
  from sorted_boundaries [OF body_sample(1) [OF assms(1,2)] nb0 ss(1) this]
  show "sorted (bucket_boundaries (body_spec smp g data))"
    by (subst body_spec_sel(4)) simp
  show "int (length (bucket_boundaries (body_spec smp g data))) = ?nb - 1"
    using nb(1) by (subst body_spec_sel(4)) simp
qed

lemma body_bisect_range:
  assumes "sampler_ok smp" and "data \<noteq> []" and "length data < 2 ^ 63"
  shows "int (bisect_left (bucket_boundaries (body_spec smp g data)) x) \<le> num_buckets (body_spec smp g data) - 1"
  using bisect_left_le_length [of "bucket_boundaries (body_spec smp g data)" x]
    body_boundaries(2) [OF assms, of g] by linarith

lemma body_buckets:
  assumes "sampler_ok smp" and "data \<noteq> []" and "length data < 2 ^ 63"
  shows "int (length (buckets (body_spec smp g data))) = num_buckets (body_spec smp g data)"
    and "j < length (buckets (body_spec smp g data)) \<Longrightarrow>
           buckets (body_spec smp g data) ! j
             = filter (\<lambda>x. bisect_left (bucket_boundaries (body_spec smp g data)) x = j) data"
proof -
  note nb = body_num_buckets(1,2) [OF assms(2,3), of smp g]
  show "int (length (buckets (body_spec smp g data))) = num_buckets (body_spec smp g data)"
    using nb(1) by (subst body_spec_sel(5)) simp
  show "j < length (buckets (body_spec smp g data)) \<Longrightarrow>
           buckets (body_spec smp g data) ! j
             = filter (\<lambda>x. bisect_left (bucket_boundaries (body_spec smp g data)) x = j) data"
    by (subst (asm) body_spec_sel(5), subst body_spec_sel(5)) simp
qed

lemma mset_concat_sort: "mset (concat (map sort bs)) = mset (concat bs)"
  by (induction bs) simp_all

lemma body_mset:
  assumes "sampler_ok smp" and "data \<noteq> []" and "length data < 2 ^ 63"
  shows "mset (sorted_data (body_spec smp g data)) = mset data"
proof -
  let ?bb = "bucket_boundaries (body_spec smp g data)"
  let ?nb = "num_buckets (body_spec smp g data)"
  have "\<forall>x \<in> set data. bisect_left ?bb x < nat ?nb"
  proof
    fix x
    have "int (bisect_left ?bb x) \<le> ?nb - 1" by (rule body_bisect_range [OF assms])
    then show "bisect_left ?bb x < nat ?nb" by linarith
  qed
  from mset_concat_filter_index [OF this]
  show ?thesis by (simp add: body_spec_sel(6) mset_concat_sort body_spec_sel(5) [symmetric])
qed

lemma body_sorted:
  assumes "sampler_ok smp" and "data \<noteq> []" and "length data < 2 ^ 63"
  shows "sorted (sorted_data (body_spec smp g data))"
proof -
  let ?bb = "bucket_boundaries (body_spec smp g data)"
  let ?bs = "buckets (body_spec smp g data)"
  note sb = body_boundaries(1) [OF assms, of g]
  have len: "length (map sort ?bs) = length ?bs" by simp
  have "\<forall>i j. i < j \<and> j < length (map sort ?bs) \<longrightarrow>
          (\<forall>x \<in> set (map sort ?bs ! i). \<forall>y \<in> set (map sort ?bs ! j). x \<le> y)"
  proof (intro allI impI ballI)
    fix i j x y
    assume ij: "i < j \<and> j < length (map sort ?bs)"
      and x: "x \<in> set (map sort ?bs ! i)" and y: "y \<in> set (map sort ?bs ! j)"
    have i: "i < length ?bs" and j: "j < length ?bs" using ij by simp_all
    have "x \<in> set (?bs ! i)" using x i by simp
    then have bx: "bisect_left ?bb x = i" using body_buckets(2) [OF assms i] by simp
    have "y \<in> set (?bs ! j)" using y j by simp
    then have "bisect_left ?bb y = j" using body_buckets(2) [OF assms j] by simp
    then have "i < bisect_left ?bb y" using ij by simp
    then have lt: "?bb ! i < y" using bisect_left_spec(2) [OF sb, of y] by simp
    have "i < length ?bb"
      using \<open>i < bisect_left ?bb y\<close> bisect_left_spec(1) [OF sb, of y] by simp
    then have "x \<le> ?bb ! i" using bisect_left_spec(3) [OF sb, of x] bx by simp
    with lt show "x \<le> y" by simp
  qed
  moreover have "\<forall>b \<in> set (map sort ?bs). sorted b" by auto
  ultimately have "sorted (concat (map sort ?bs))" by (rule sorted_concat [rotated])
  then show ?thesis by (simp add: body_spec_sel(6))
qed

lemma sort_eq_body:
  assumes "sampler_ok smp" and "data \<noteq> []" and "length data < 2 ^ 63"
  shows "bucket_sort_quantile_based smp g data
           = Inr (sorted_data (body_spec smp g data), rng (body_spec smp g data))"
  using assms(2) by (simp add: bucket_sort_quantile_based_def bsq_body_eq [OF assms])

lemma first_positions_ok: "sampler_ok first_positions"
  by (simp add: sampler_ok_def first_positions_def)

lemma sort_eq_sort:
  assumes "sampler_ok smp" and "data \<noteq> []" and "length data < 2 ^ 63"
  shows "sorted_data (body_spec smp g data) = sort data"
  using properties_for_sort [OF body_mset [OF assms] body_sorted [OF assms]] by simp

lemma scenario_body:
  "bsq_body first_positions 0 [5, 3, 1, 4, 2 :: int]
     = Inr \<lparr>num_buckets = 2, sample_size = 5, sample = [1, 2, 3, 4, 5], bucket_boundaries = [3],
            buckets = [[3, 1, 2], [5, 4]], sorted_data = [1, 2, 3, 4, 5], rng = 1\<rparr>"
proof -
  have nb: "calc_num_buckets 5 = Inr 2"
    using calc_num_buckets_exact [of 2 5] by simp
  have ss: "calc_sample_size 5 = 5"
    by (simp add: calc_sample_size_def fl_eval)
  have rs: "random_sample first_positions 0 [5, 3, 1, 4, 2 :: int] 5 = Inr ([5, 3, 1, 4, 2], 1)"
    by (simp add: random_sample_def first_positions_def upt_rec)
  have len: "int (length [5, 3, 1, 4, 2 :: int]) = 5" by simp
  have srt: "sort [5, 3, 1, 4, 2 :: int] = [1, 2, 3, 4, 5]" by simp
  have upto: "[1 .. (2::int) - 1] = [1]" by (simp add: upto.simps)
  have bl: "boundaries_loop [1, 2, 3, 4, 5 :: int] 2 5 [1] [] = Inr [3]"
    by (simp add: quantile_index_def fl_eval list_get_def)
  have al: "assign_loop [3 :: int] (replicate (nat 2) []) [5, 3, 1, 4, 2] = Inr [[3, 1, 2], [5, 4]]"
    by (simp add: bisect_left_def bisect_left_loop.simps numeral_2_eq_2)
  have cl: "concat_loop [[3, 1, 2], [5, 4 :: int]] [] = [1, 2, 3, 4, 5]" by simp
  show ?thesis
    by (simp only: bsq_body_def Let_def len nb ss rs sum.case prod.case srt upto bl al cl)
qed

subsection \<open>The executable square root\<close>

lemma isqrt_loop_spec:
  assumes "lo * lo \<le> n" and "n < hi * hi"
  shows "isqrt_loop n lo hi * isqrt_loop n lo hi \<le> n
       \<and> n < (isqrt_loop n lo hi + 1) * (isqrt_loop n lo hi + 1)"
  using assms
proof (induction n lo hi rule: isqrt_loop.induct)
  case (1 n lo hi)
  have lt: "lo < hi"
  proof (rule ccontr)
    assume "\<not> lo < hi"
    then have "hi * hi \<le> lo * lo" by (simp add: mult_le_mono)
    with "1.prems" show False by simp
  qed
  show ?case
  proof (cases "lo + 1 < hi")
    case False
    with lt have "hi = lo + 1" by simp
    moreover have "isqrt_loop n lo hi = lo"
      using False by (subst isqrt_loop.simps) simp
    ultimately show ?thesis using "1.prems" by simp
  next
    case True
    define mid where "mid = (lo + hi) div 2"
    show ?thesis
    proof (cases "mid * mid \<le> n")
      case le: True
      have "isqrt_loop n lo hi = isqrt_loop n mid hi"
        using True le by (subst isqrt_loop.simps) (simp add: mid_def Let_def)
      then show ?thesis
        using "1.IH"(1) [OF True mid_def le le "1.prems"(2)] by simp
    next
      case gt: False
      then have g: "n < mid * mid" by simp
      have "isqrt_loop n lo hi = isqrt_loop n lo mid"
        using True gt by (subst isqrt_loop.simps) (simp add: mid_def Let_def)
      then show ?thesis
        using "1.IH"(2) [OF True mid_def gt "1.prems"(1) g] by simp
    qed
  qed
qed

lemma isqrt_spec: "isqrt n * isqrt n \<le> n" "n < (isqrt n + 1) * (isqrt n + 1)"
proof -
  have "n < (n + 1) * (n + 1)" by simp
  then have "isqrt_loop n 0 (n + 1) * isqrt_loop n 0 (n + 1) \<le> n
       \<and> n < (isqrt_loop n 0 (n + 1) + 1) * (isqrt_loop n 0 (n + 1) + 1)"
    by (intro isqrt_loop_spec) simp_all
  then show "isqrt n * isqrt n \<le> n" "n < (isqrt n + 1) * (isqrt n + 1)"
    by (simp_all add: isqrt_def)
qed

lemma round_half_even_sqrt:
  assumes "0 \<le> y" and "m = int (isqrt (nat \<lfloor>y\<rfloor>))"
  shows "round_half_even (sqrt y)
           = (if y < (of_int m + 1 / 2)\<^sup>2 then m
              else if (of_int m + 1 / 2)\<^sup>2 < y then m + 1
              else if even m then m else m + 1)"
proof -
  define k where "k = isqrt (nat \<lfloor>y\<rfloor>)"
  have m: "m = int k" by (simp add: assms(2) k_def)
  have fy: "real (nat \<lfloor>y\<rfloor>) \<le> y" "y < real (nat \<lfloor>y\<rfloor>) + 1"
    using assms(1) by (simp_all add: of_nat_nat)
  have "real (k * k) \<le> real (nat \<lfloor>y\<rfloor>)"
    using isqrt_spec(1) [of "nat \<lfloor>y\<rfloor>"] unfolding k_def by (rule of_nat_mono)
  then have lo: "(real k)\<^sup>2 \<le> y" using fy(1) by (simp add: power2_eq_square)
  have "real (nat \<lfloor>y\<rfloor>) + 1 \<le> real ((k + 1) * (k + 1))"
    using isqrt_spec(2) [of "nat \<lfloor>y\<rfloor>"] unfolding k_def
    by (metis Suc_leI of_nat_Suc of_nat_le_iff add.commute)
  moreover have "real ((k + 1) * (k + 1)) = (real k + 1)\<^sup>2"
    by (simp add: power2_eq_square algebra_simps)
  ultimately have hi: "y < (real k + 1)\<^sup>2" using fy(2) by linarith
  have s1: "real k \<le> sqrt y" using lo by (intro real_le_rsqrt)
  have s2: "sqrt y < real k + 1" using hi by (intro real_less_lsqrt) simp_all
  have fl: "\<lfloor>sqrt y\<rfloor> = m" using s1 s2 by (simp add: m floor_eq_iff)
  have half: "(0::real) \<le> of_int m + 1 / 2" by (simp add: m)
  have c1: "sqrt y < of_int m + 1 / 2 \<longleftrightarrow> y < (of_int m + 1 / 2)\<^sup>2"
    using half assms(1)
    by (metis real_sqrt_less_iff real_sqrt_abs abs_of_nonneg)
  have c2: "of_int m + 1 / 2 < sqrt y \<longleftrightarrow> (of_int m + 1 / 2)\<^sup>2 < y"
    using half assms(1)
    by (metis real_sqrt_less_iff real_sqrt_abs abs_of_nonneg)
  have r1: "sqrt y - of_int m < 1 / 2 \<longleftrightarrow> y < (of_int m + 1 / 2)\<^sup>2"
    unfolding c1 [symmetric] by linarith
  have r2: "1 / 2 < sqrt y - of_int m \<longleftrightarrow> (of_int m + 1 / 2)\<^sup>2 < y"
    unfolding c2 [symmetric] by linarith
  show ?thesis
    unfolding round_half_even_def Let_def fl r1 r2 ..
qed

lemma fl_sqrt_correct:
  assumes "0 \<le> x"
  shows "fl (sqrt x) = fl_sqrt x"
proof (cases "x = 0")
  case True
  then show ?thesis by (simp add: fl_sqrt_def fl_def)
next
  case False
  with assms have x: "0 < x" by simp
  define L where "L = flog2 x"
  define h where "h = L div 2"
  define e where "e = h - 52"
  define y where "y = x / 2 powi (2 * e)"
  define m where "m = int (isqrt (nat \<lfloor>y\<rfloor>))"
  have s0: "0 < sqrt x" using x by simp
  have hL: "2 * h \<le> L" "L + 1 \<le> 2 * h + 2" unfolding h_def by presburger+
  have sq: "(2 powi k)\<^sup>2 = (2::real) powi (2 * k)" for k
    by (simp add: power2_eq_square flip: power_int_add)
  have "(2::real) powi (2 * h) \<le> 2 powi L" using hL(1) by (intro power_int_increasing) simp_all
  also have "\<dots> \<le> x" unfolding L_def by (rule flog2_bounds(1) [OF x])
  finally have "(2 powi h)\<^sup>2 \<le> x" by (simp add: sq)
  then have lo: "2 powi h \<le> sqrt x" by (rule real_le_rsqrt)
  have "x < 2 powi (L + 1)" unfolding L_def by (rule flog2_bounds(2) [OF x])
  also have "\<dots> \<le> 2 powi (2 * (h + 1))" using hL(2) by (intro power_int_increasing) simp_all
  finally have "x < (2 powi (h + 1))\<^sup>2" by (simp add: sq)
  then have hi: "sqrt x < 2 powi (h + 1)" by (intro real_less_lsqrt) simp_all
  have fe: "flog2 (sqrt x) = h" using lo hi by (rule flog2_eqI)
  have y0: "0 \<le> y" using x by (simp add: y_def)
  have "sqrt y = sqrt x / sqrt ((2 powi e)\<^sup>2)"
    by (simp add: y_def sq real_sqrt_divide)
  then have sy: "sqrt x / 2 powi (h - 52) = sqrt y" by (simp add: e_def)
  have "fl (sqrt x) = of_int (round_half_even (sqrt y)) * 2 powi e"
    by (simp add: fl_pos [OF s0] fe sy) (simp add: e_def)
  also have "round_half_even (sqrt y)
           = (if y < (of_int m + 1 / 2)\<^sup>2 then m
              else if (of_int m + 1 / 2)\<^sup>2 < y then m + 1
              else if even m then m else m + 1)"
    using y0 m_def by (rule round_half_even_sqrt)
  finally show ?thesis
    using x by (simp add: fl_sqrt_def Let_def L_def h_def e_def y_def m_def)
qed

lemma math_sqrt_code [code]:
  "math_sqrt k = (if k < 0 then Inl ValueError else Inr (fl_sqrt (float_of_int k)))"
proof -
  have "0 \<le> float_of_int k" if "0 \<le> k"
    unfolding float_of_int_def using that by (intro fl_nonneg) simp
  then show ?thesis by (auto simp: math_sqrt_def fl_sqrt_correct)
qed

section \<open>The claims\<close>

text \<open>
  C1. For every list of fewer than \<open>2 ^ 63\<close> totally ordered values (the range of
  \<^verbatim>\<open>len\<close>) and every random source that honours the contract of \<^verbatim>\<open>random.sample\<close>,
  \<open>bucket_sort_quantile_based\<close> returns a list, that list is a permutation of the input
  (equal as a multiset), and it is in non-decreasing order: each element is at most its
  successor.
\<close>

theorem sort_sorted_permutation:
  assumes "sampler_ok smp" and "length data < 2 ^ 63"
  shows "\<exists>out g'. bucket_sort_quantile_based smp g data = Inr (out, g')
           \<and> mset out = mset data \<and> sorted out
           \<and> (\<forall>i. Suc i < length out \<longrightarrow> out ! i \<le> out ! Suc i)"
proof (cases "data = []")
  case True
  then show ?thesis by (simp add: bucket_sort_quantile_based_def)
next
  case False
  let ?out = "sorted_data (body_spec smp g data)"
  have "bucket_sort_quantile_based smp g data = Inr (?out, rng (body_spec smp g data))"
    using assms(1) False assms(2) by (rule sort_eq_body)
  moreover have "mset ?out = mset data" using assms(1) False assms(2) by (rule body_mset)
  moreover have s: "sorted ?out" using assms(1) False assms(2) by (rule body_sorted)
  moreover have "\<forall>i. Suc i < length ?out \<longrightarrow> ?out ! i \<le> ?out ! Suc i"
    using s by (simp add: sorted_nth_mono)
  ultimately show ?thesis by blast
qed

theorem sort_sorted_permutation_witness:
  "sampler_ok first_positions \<and> length [5, 3, 1, 4, 2 :: int] < 2 ^ 63
   \<and> (\<exists>out g'. bucket_sort_quantile_based first_positions 0 [5, 3, 1, 4, 2 :: int] = Inr (out, g')
          \<and> mset out = mset [5, 3, 1, 4, 2] \<and> sorted out
          \<and> (\<forall>i. Suc i < length out \<longrightarrow> out ! i \<le> out ! Suc i))"
  using sort_sorted_permutation [OF first_positions_ok, of "[5, 3, 1, 4, 2 :: int]" 0]
    first_positions_ok by simp

text \<open>
  C6. In every call on a non-empty input the boundary sequence is non-decreasing and has
  length \<open>num_buckets - 1\<close>. (A call on the empty input returns before any boundary exists.)
\<close>

theorem boundaries_monotone:
  assumes "sampler_ok smp" and "data \<noteq> []" and "length data < 2 ^ 63"
  shows "\<exists>l. bsq_body smp g data = Inr l \<and> sorted (bucket_boundaries l)
           \<and> int (length (bucket_boundaries l)) = num_buckets l - 1"
  using bsq_body_eq [OF assms, of g] body_boundaries [OF assms, of g] by simp

theorem boundaries_monotone_witness:
  "sampler_ok first_positions \<and> [5, 3, 1, 4, 2 :: int] \<noteq> [] \<and> length [5, 3, 1, 4, 2 :: int] < 2 ^ 63
   \<and> (\<exists>l. bsq_body first_positions 0 [5, 3, 1, 4, 2 :: int] = Inr l \<and> sorted (bucket_boundaries l)
          \<and> int (length (bucket_boundaries l)) = num_buckets l - 1)"
  using boundaries_monotone [OF first_positions_ok, of "[5, 3, 1, 4, 2 :: int]" 0]
    first_positions_ok by simp

text \<open>
  C10. In every call on a non-empty input the partial operations stay within their
  preconditions: \<open>1 \<le> sample_size \<le> n\<close>, so \<^verbatim>\<open>random.sample\<close> does not raise; for every
  \<open>i\<close> of the boundary loop the index is a valid index of the sorted sample, so
  \<^verbatim>\<open>sample[index]\<close> does not raise; and every bucket index is below \<open>num_buckets\<close>, the
  length of \<open>buckets\<close>, so \<^verbatim>\<open>buckets[index]\<close> does not raise.
\<close>

theorem partial_operations_in_range:
  assumes "sampler_ok smp" and "data \<noteq> []" and "length data < 2 ^ 63"
  shows "\<exists>l. bsq_body smp g data = Inr l
           \<and> sample_size l = calc_sample_size (int (length data))
           \<and> 1 \<le> sample_size l \<and> sample_size l \<le> int (length data)
           \<and> (\<exists>r. random_sample smp g data (sample_size l) = Inr r)
           \<and> int (length (sample l)) = sample_size l
           \<and> (\<forall>i. 1 \<le> i \<and> i < num_buckets l \<longrightarrow>
                 (\<exists>k. quantile_index i (num_buckets l) (sample_size l) = Inr k
                      \<and> 0 \<le> k \<and> k < int (length (sample l))
                      \<and> list_get (sample l) k = Inr (sample l ! nat k)))
           \<and> int (length (buckets l)) = num_buckets l
           \<and> (\<forall>x. bisect_left (bucket_boundaries l) x < length (buckets l))"
proof -
  let ?l = "body_spec smp g data"
  note ss = body_sample_size [OF assms(2), of smp g]
  have "bsq_body smp g data = Inr ?l" by (rule bsq_body_eq [OF assms])
  moreover have "sample_size ?l = calc_sample_size (int (length data))" by (rule body_spec_sel(2))
  moreover have "\<exists>r. random_sample smp g data (sample_size ?l) = Inr r"
    using random_sample_ok(1) [OF assms(1), of "sample_size ?l" data g] ss by simp
  moreover have sl: "int (length (sample ?l)) = sample_size ?l" by (rule body_sample(2) [OF assms(1,2)])
  moreover have "\<forall>i. 1 \<le> i \<and> i < num_buckets ?l \<longrightarrow>
                 (\<exists>k. quantile_index i (num_buckets ?l) (sample_size ?l) = Inr k
                      \<and> 0 \<le> k \<and> k < int (length (sample ?l))
                      \<and> list_get (sample ?l) k = Inr (sample ?l ! nat k))"
  proof (intro allI impI)
    fix i assume i: "1 \<le> i \<and> i < num_buckets ?l"
    then have i1: "1 \<le> i" and i2: "i < num_buckets ?l" by simp_all
    note r = body_index_range [OF assms i1 i2]
    show "\<exists>k. quantile_index i (num_buckets ?l) (sample_size ?l) = Inr k
                      \<and> 0 \<le> k \<and> k < int (length (sample ?l))
                      \<and> list_get (sample ?l) k = Inr (sample ?l ! nat k)"
      using r list_get_in_range [OF r(1,2)] by blast
  qed
  moreover have bl: "int (length (buckets ?l)) = num_buckets ?l" by (rule body_buckets(1) [OF assms])
  moreover have "\<forall>x. bisect_left (bucket_boundaries ?l) x < length (buckets ?l)"
  proof
    fix x
    have "int (bisect_left (bucket_boundaries ?l) x) \<le> num_buckets ?l - 1"
      by (rule body_bisect_range [OF assms])
    then show "bisect_left (bucket_boundaries ?l) x < length (buckets ?l)" using bl by linarith
  qed
  ultimately show ?thesis using ss by blast
qed

theorem partial_operations_in_range_witness:
  "sampler_ok first_positions \<and> [5, 3, 1, 4, 2 :: int] \<noteq> [] \<and> length [5, 3, 1, 4, 2 :: int] < 2 ^ 63
   \<and> (\<exists>l. bsq_body first_positions 0 [5, 3, 1, 4, 2 :: int] = Inr l
           \<and> sample_size l = calc_sample_size (int (length [5, 3, 1, 4, 2 :: int]))
           \<and> 1 \<le> sample_size l \<and> sample_size l \<le> int (length [5, 3, 1, 4, 2 :: int])
           \<and> (\<exists>r. random_sample first_positions 0 [5, 3, 1, 4, 2 :: int] (sample_size l) = Inr r)
           \<and> int (length (sample l)) = sample_size l
           \<and> (\<forall>i. 1 \<le> i \<and> i < num_buckets l \<longrightarrow>
                 (\<exists>k. quantile_index i (num_buckets l) (sample_size l) = Inr k
                      \<and> 0 \<le> k \<and> k < int (length (sample l))
                      \<and> list_get (sample l) k = Inr (sample l ! nat k)))
           \<and> int (length (buckets l)) = num_buckets l
           \<and> (\<forall>x. bisect_left (bucket_boundaries l) x < length (buckets l)))"
  using partial_operations_in_range [OF first_positions_ok, of "[5, 3, 1, 4, 2 :: int]" 0]
    first_positions_ok by simp

lemma body_in_bucket:
  assumes "sampler_ok smp" and "data \<noteq> []" and "length data < 2 ^ 63" and "x \<in> set data"
  shows "x \<in> set (buckets (body_spec smp g data)
                    ! bisect_left (bucket_boundaries (body_spec smp g data)) x)"
proof -
  let ?l = "body_spec smp g data"
  have "int (bisect_left (bucket_boundaries ?l) x) \<le> num_buckets ?l - 1"
    by (rule body_bisect_range [OF assms(1-3)])
  then have "bisect_left (bucket_boundaries ?l) x < length (buckets ?l)"
    using body_buckets(1) [OF assms(1-3), of g] by linarith
  from body_buckets(2) [OF assms(1-3) this] show ?thesis using assms(4) by simp
qed

lemma body_buckets_mset:
  assumes "sampler_ok smp" and "data \<noteq> []" and "length data < 2 ^ 63"
  shows "mset (concat (buckets (body_spec smp g data))) = mset data"
  using body_mset [OF assms, of g] by (simp add: body_spec_sel(6) mset_concat_sort)

text \<open>
  C5. In every call on a non-empty input there are \<open>num_buckets\<close> buckets and
  \<open>num_buckets - 1\<close> sorted boundaries, and the bucket index of an element \<open>x\<close>, which
  is below the number of buckets, is the number of boundaries strictly less than \<open>x\<close>,
  the leftmost insertion point of \<open>x\<close> in the boundary sequence. Bucket \<open>j\<close> ends up
  holding exactly the elements with \<open>j\<close> boundaries below them, in the order of the input:
  every element is in the bucket of its index, and the buckets together hold the input. An
  element equal to the boundary at position \<open>j\<close> gets an index of at most \<open>j\<close>, and with a
  single bucket every element goes to bucket 0.
\<close>

theorem bucket_index_is_count:
  assumes "sampler_ok smp" and "data \<noteq> []" and "length data < 2 ^ 63"
  shows "\<exists>l. bsq_body smp g data = Inr l
           \<and> sorted (bucket_boundaries l)
           \<and> int (length (bucket_boundaries l)) = num_buckets l - 1
           \<and> int (length (buckets l)) = num_buckets l
           \<and> (\<forall>x. bisect_left (bucket_boundaries l) x < length (buckets l))
           \<and> (\<forall>x. bisect_left (bucket_boundaries l) x
                    = length (filter (\<lambda>b. b < x) (bucket_boundaries l)))
           \<and> (\<forall>x. (\<forall>i < bisect_left (bucket_boundaries l) x. bucket_boundaries l ! i < x)
                  \<and> (\<forall>i. bisect_left (bucket_boundaries l) x \<le> i \<and> i < length (bucket_boundaries l)
                          \<longrightarrow> x \<le> bucket_boundaries l ! i))
           \<and> (\<forall>j < length (buckets l).
                 buckets l ! j
                   = filter (\<lambda>x. length (filter (\<lambda>b. b < x) (bucket_boundaries l)) = j) data)
           \<and> (\<forall>x \<in> set data.
                 x \<in> set (buckets l ! length (filter (\<lambda>b. b < x) (bucket_boundaries l))))
           \<and> mset (concat (buckets l)) = mset data
           \<and> (\<forall>j < length (bucket_boundaries l).
                 bisect_left (bucket_boundaries l) (bucket_boundaries l ! j) \<le> j)
           \<and> (num_buckets l = 1 \<longrightarrow> buckets l = [data])"
proof -
  let ?l = "body_spec smp g data"
  let ?bb = "bucket_boundaries ?l"
  note sb = body_boundaries [OF assms, of g]
  note lb = body_buckets(1) [OF assms, of g]
  have cnt: "bisect_left ?bb x = length (filter (\<lambda>b. b < x) ?bb)" for x
    using sb(1) by (rule bisect_left_count)
  have "bsq_body smp g data = Inr ?l" by (rule bsq_body_eq [OF assms])
  moreover have "\<forall>x. bisect_left ?bb x < length (buckets ?l)"
  proof
    fix x
    have "int (bisect_left ?bb x) \<le> num_buckets ?l - 1" by (rule body_bisect_range [OF assms])
    then show "bisect_left ?bb x < length (buckets ?l)" using lb by linarith
  qed
  moreover have "\<forall>x. (\<forall>i < bisect_left ?bb x. ?bb ! i < x)
                  \<and> (\<forall>i. bisect_left ?bb x \<le> i \<and> i < length ?bb \<longrightarrow> x \<le> ?bb ! i)"
    using bisect_left_spec(2,3) [OF sb(1)] by blast
  moreover have "\<forall>j < length (buckets ?l).
                 buckets ?l ! j = filter (\<lambda>x. length (filter (\<lambda>b. b < x) ?bb) = j) data"
    using body_buckets(2) [OF assms, of _ g] by (simp add: cnt)
  moreover have "\<forall>x \<in> set data. x \<in> set (buckets ?l ! length (filter (\<lambda>b. b < x) ?bb))"
    using body_in_bucket [OF assms, of _ g] by (simp add: cnt)
  moreover have "mset (concat (buckets ?l)) = mset data" by (rule body_buckets_mset [OF assms])
  moreover have "\<forall>j < length ?bb. bisect_left ?bb (?bb ! j) \<le> j"
  proof (intro allI impI)
    fix j assume j: "j < length ?bb"
    show "bisect_left ?bb (?bb ! j) \<le> j"
    proof (rule ccontr)
      assume "\<not> bisect_left ?bb (?bb ! j) \<le> j"
      then have "j < bisect_left ?bb (?bb ! j)" by simp
      then have "?bb ! j < ?bb ! j" using bisect_left_spec(2) [OF sb(1), of "?bb ! j"] by blast
      then show False by simp
    qed
  qed
  moreover have "num_buckets ?l = 1 \<longrightarrow> buckets ?l = [data]"
  proof
    assume one: "num_buckets ?l = 1"
    then have "?bb = []" using sb(2) by simp
    then have z: "bisect_left ?bb x = 0" for x
      using bisect_left_le_length [of ?bb x] by simp
    have "length (buckets ?l) = 1" using lb one by simp
    moreover from this have "buckets ?l ! 0 = data"
      using body_buckets(2) [OF assms, of 0 g] by (simp add: z)
    ultimately show "buckets ?l = [data]"
      by (cases "buckets ?l") simp_all
  qed
  ultimately show ?thesis using cnt sb lb by blast
qed

theorem bucket_index_is_count_witness:
  "sampler_ok first_positions \<and> [5, 3, 1, 4, 2 :: int] \<noteq> [] \<and> length [5, 3, 1, 4, 2 :: int] < 2 ^ 63
   \<and> bsq_body first_positions 0 [5, 3, 1, 4, 2 :: int]
        = Inr \<lparr>num_buckets = 2, sample_size = 5, sample = [1, 2, 3, 4, 5], bucket_boundaries = [3],
               buckets = [[3, 1, 2], [5, 4]], sorted_data = [1, 2, 3, 4, 5], rng = 1\<rparr>
   \<and> (\<exists>l. bsq_body first_positions 0 [5, 3, 1, 4, 2 :: int] = Inr l
           \<and> sorted (bucket_boundaries l)
           \<and> int (length (bucket_boundaries l)) = num_buckets l - 1
           \<and> int (length (buckets l)) = num_buckets l
           \<and> (\<forall>x. bisect_left (bucket_boundaries l) x < length (buckets l))
           \<and> (\<forall>x. bisect_left (bucket_boundaries l) x
                    = length (filter (\<lambda>b. b < x) (bucket_boundaries l)))
           \<and> (\<forall>x. (\<forall>i < bisect_left (bucket_boundaries l) x. bucket_boundaries l ! i < x)
                  \<and> (\<forall>i. bisect_left (bucket_boundaries l) x \<le> i \<and> i < length (bucket_boundaries l)
                          \<longrightarrow> x \<le> bucket_boundaries l ! i))
           \<and> (\<forall>j < length (buckets l).
                 buckets l ! j
                   = filter (\<lambda>x. length (filter (\<lambda>b. b < x) (bucket_boundaries l)) = j) [5, 3, 1, 4, 2])
           \<and> (\<forall>x \<in> set [5, 3, 1, 4, 2].
                 x \<in> set (buckets l ! length (filter (\<lambda>b. b < x) (bucket_boundaries l))))
           \<and> mset (concat (buckets l)) = mset [5, 3, 1, 4, 2]
           \<and> (\<forall>j < length (bucket_boundaries l).
                 bisect_left (bucket_boundaries l) (bucket_boundaries l ! j) \<le> j)
           \<and> (num_buckets l = 1 \<longrightarrow> buckets l = [[5, 3, 1, 4, 2]]))"
  using bucket_index_is_count [OF first_positions_ok, of "[5, 3, 1, 4, 2 :: int]" 0]
    first_positions_ok scenario_body by simp

text \<open>
  C7. Sorting the empty list is not an error: the call returns the empty list and leaves the
  random source as it found it, whatever the sampler is, so neither the sampling nor the
  boundary estimation has run. Sorting a singleton \<open>[x]\<close> returns \<open>[x]\<close>.
\<close>

theorem base_cases:
  "bucket_sort_quantile_based smp g [] = Inr ([], g)
   \<and> (sampler_ok smp \<longrightarrow>
        bucket_sort_quantile_based smp g [x] = Inr ([x], snd (smp g 1 1)))"
proof -
  have "bucket_sort_quantile_based smp g [] = Inr ([], g)"
    by (simp add: bucket_sort_quantile_based_def)
  moreover have "bucket_sort_quantile_based smp g [x] = Inr ([x], snd (smp g 1 1))"
    if ok: "sampler_ok smp"
  proof -
    have ne: "[x] \<noteq> []" and len: "length [x] < 2 ^ 63" by simp_all
    have ss: "sample_size (body_spec smp g [x]) = 1"
      using body_sample_size [OF ne, of smp g] by simp
    have "sorted_data (body_spec smp g [x]) = sort [x]" by (rule sort_eq_sort [OF ok ne len])
    moreover have "rng (body_spec smp g [x]) = snd (smp g 1 1)"
      by (subst body_spec_sel(7)) (simp add: ss)
    ultimately show ?thesis by (simp add: sort_eq_body [OF ok ne len])
  qed
  ultimately show ?thesis by blast
qed

theorem base_cases_witness:
  "bucket_sort_quantile_based first_positions 0 ([] :: int list) = Inr ([], 0)
   \<and> sampler_ok first_positions
   \<and> bucket_sort_quantile_based first_positions 0 [7 :: int] = Inr ([7], 1)"
  using base_cases [of first_positions 0 "7 :: int"] first_positions_ok
  by (simp add: first_positions_def)

lemma last_positions_ok: "sampler_ok last_positions"
  by (auto simp: sampler_ok_def last_positions_def)

lemma sort_cong_mset: "mset xs = mset ys \<Longrightarrow> sort xs = sort ys"
  using properties_for_sort [of "sort ys" xs] by simp

lemma draw_all:
  assumes "sampler_ok smp" and "data \<noteq> []" and "length data \<le> 1000"
  shows "mset (map (\<lambda>j. data ! j)
            (fst (smp g (length data) (nat (calc_sample_size (int (length data)))))))
         = mset data"
proof -
  let ?n = "length data"
  let ?ps = "fst (smp g ?n ?n)"
  have ss: "nat (calc_sample_size (int ?n)) = ?n"
    using assms(3) by (simp add: calc_sample_size_def)
  have ok: "length ?ps = ?n" "distinct ?ps" "\<forall>j \<in> set ?ps. j < ?n"
    using assms(1) unfolding sampler_ok_def by (blast intro: order_refl)+
  have "set ?ps \<subseteq> {0 ..< ?n}" using ok(3) by auto
  moreover have "card (set ?ps) = card {0 ..< ?n}"
    using ok(1,2) by (simp add: distinct_card)
  ultimately have "set ?ps = {0 ..< ?n}" by (simp add: card_subset_eq)
  then have "mset ?ps = mset [0 ..< ?n]"
    using ok(2) set_eq_iff_mset_eq_distinct [of ?ps "[0 ..< ?n]"] by simp
  then have "mset (map (\<lambda>j. data ! j) ?ps) = mset (map (\<lambda>j. data ! j) [0 ..< ?n])"
    by (metis mset_map)
  also have "map (\<lambda>j. data ! j) [0 ..< ?n] = data" by (rule map_nth)
  finally show ?thesis by (simp add: ss)
qed

text \<open>
  C9. The state of the random source enters a call only through the elements that the sample
  draws. Two calls on the same non-empty input, from any two states of any two random
  sources, that draw the same elements (in any order) compute the same bucket count, the same
  sorted sample, the same boundary sequence and the same buckets, and return the same list.
  Two calls from the same state of the same source draw the same positions: they are the
  case \<open>smp1 = smp2\<close>, \<open>g1 = g2\<close>, where the last premise is an equation between a term and
  itself. The returned list needs no premise on the draw at all, and on at most 1000
  elements the sample is the whole input, so neither do the boundaries.
\<close>

theorem determinism:
  assumes "sampler_ok smp1" and "sampler_ok smp2" and "data \<noteq> []" and "length data < 2 ^ 63"
    and "length data \<le> 1000
         \<or> mset (map (\<lambda>j. data ! j)
                (fst (smp1 g1 (length data) (nat (calc_sample_size (int (length data)))))))
            = mset (map (\<lambda>j. data ! j)
                (fst (smp2 g2 (length data) (nat (calc_sample_size (int (length data)))))))"
  shows "\<exists>l1 l2. bsq_body smp1 g1 data = Inr l1 \<and> bsq_body smp2 g2 data = Inr l2
           \<and> num_buckets l1 = num_buckets l2 \<and> sample_size l1 = sample_size l2
           \<and> sample l1 = sample l2
           \<and> bucket_boundaries l1 = bucket_boundaries l2
           \<and> buckets l1 = buckets l2
           \<and> sorted_data l1 = sorted_data l2
           \<and> map_sum id fst (bucket_sort_quantile_based smp1 g1 data)
               = map_sum id fst (bucket_sort_quantile_based smp2 g2 data)"
proof -
  let ?l1 = "body_spec smp1 g1 data"
  let ?l2 = "body_spec smp2 g2 data"
  have draw: "mset (map (\<lambda>j. data ! j)
                (fst (smp1 g1 (length data) (nat (calc_sample_size (int (length data)))))))
            = mset (map (\<lambda>j. data ! j)
                (fst (smp2 g2 (length data) (nat (calc_sample_size (int (length data)))))))"
    using assms(5) draw_all [OF assms(1,3), of g1] draw_all [OF assms(2,3), of g2] by auto
  have nb: "num_buckets ?l1 = num_buckets ?l2" by (simp add: body_spec_sel(1))
  have ss: "sample_size ?l1 = sample_size ?l2" by (simp add: body_spec_sel(2))
  have sm: "sample ?l1 = sample ?l2"
    unfolding body_spec_sel(3) body_spec_sel(2) using draw by (rule sort_cong_mset)
  have bb: "bucket_boundaries ?l1 = bucket_boundaries ?l2"
    by (subst (1 2) body_spec_sel(4)) (simp only: nb ss sm)
  have bs: "buckets ?l1 = buckets ?l2"
    by (subst (1 2) body_spec_sel(5)) (simp only: nb bb)
  have sd: "sorted_data ?l1 = sorted_data ?l2"
    by (simp only: body_spec_sel(6) bs)
  have b1: "bsq_body smp1 g1 data = Inr ?l1" by (rule bsq_body_eq [OF assms(1,3,4)])
  have b2: "bsq_body smp2 g2 data = Inr ?l2" by (rule bsq_body_eq [OF assms(2,3,4)])
  have out: "map_sum id fst (bucket_sort_quantile_based smp1 g1 data)
               = map_sum id fst (bucket_sort_quantile_based smp2 g2 data)"
    using assms(3) by (simp add: bucket_sort_quantile_based_def b1 b2 sd)
  from b1 b2 nb ss sm bb bs sd out show ?thesis by blast
qed

theorem determinism_witness:
  "sampler_ok first_positions \<and> sampler_ok last_positions
   \<and> [5, 3, 1, 4, 2 :: int] \<noteq> [] \<and> length [5, 3, 1, 4, 2 :: int] < 2 ^ 63
   \<and> fst (first_positions 0 5 5) = [0, 1, 2, 3, 4] \<and> fst (last_positions 7 5 5) = [4, 3, 2, 1, 0]
   \<and> mset (map (\<lambda>j. [5, 3, 1, 4, 2 :: int] ! j) [0, 1, 2, 3, 4])
       = mset (map (\<lambda>j. [5, 3, 1, 4, 2 :: int] ! j) [4, 3, 2, 1, 0])
   \<and> (\<exists>l1 l2. bsq_body first_positions 0 [5, 3, 1, 4, 2 :: int] = Inr l1
          \<and> bsq_body last_positions 7 [5, 3, 1, 4, 2 :: int] = Inr l2
          \<and> bucket_boundaries l1 = [3] \<and> bucket_boundaries l2 = [3]
          \<and> sorted_data l1 = [1, 2, 3, 4, 5] \<and> sorted_data l2 = [1, 2, 3, 4, 5]
          \<and> rng l1 = 1 \<and> rng l2 = 12)"
proof -
  have ss: "calc_sample_size 5 = 5" by (simp add: calc_sample_size_def fl_eval)
  have p1: "fst (first_positions 0 5 5) = [0, 1, 2, 3, 4]"
    by (simp add: first_positions_def upt_rec)
  have p2: "fst (last_positions 7 5 5) = [4, 3, 2, 1, 0]"
    by (simp add: last_positions_def upt_rec)
  have m: "mset (map (\<lambda>j. [5, 3, 1, 4, 2 :: int] ! j) [0, 1, 2, 3, 4])
       = mset (map (\<lambda>j. [5, 3, 1, 4, 2 :: int] ! j) [4, 3, 2, 1, 0])"
    by simp
  have r2: "rng (body_spec last_positions 7 [5, 3, 1, 4, 2 :: int]) = 12"
    by (subst body_spec_sel(7)) (simp add: body_spec_sel(2) ss last_positions_def)
  have h: "mset (map (\<lambda>j. [5, 3, 1, 4, 2 :: int] ! j)
                (fst (first_positions 0 (length [5, 3, 1, 4, 2 :: int])
                  (nat (calc_sample_size (int (length [5, 3, 1, 4, 2 :: int])))))))
       = mset (map (\<lambda>j. [5, 3, 1, 4, 2 :: int] ! j)
                (fst (last_positions 7 (length [5, 3, 1, 4, 2 :: int])
                  (nat (calc_sample_size (int (length [5, 3, 1, 4, 2 :: int])))))))"
  proof -
    have len: "length [5, 3, 1, 4, 2 :: int] = 5" by simp
    have n5: "nat (calc_sample_size (int 5)) = 5" by (simp add: ss)
    show ?thesis unfolding len n5 p1 p2 by (rule m)
  qed
  have b2: "bsq_body last_positions 7 [5, 3, 1, 4, 2 :: int]
              = Inr (body_spec last_positions 7 [5, 3, 1, 4, 2])"
    by (rule bsq_body_eq [OF last_positions_ok]) simp_all
  from determinism [OF first_positions_ok last_positions_ok _ _ disjI2 [OF h]]
  obtain l1 l2 where "bsq_body first_positions 0 [5, 3, 1, 4, 2 :: int] = Inr l1"
    "bsq_body last_positions 7 [5, 3, 1, 4, 2 :: int] = Inr l2"
    "bucket_boundaries l1 = bucket_boundaries l2" "sorted_data l1 = sorted_data l2"
    by auto
  then show ?thesis
    using first_positions_ok last_positions_ok p1 p2 m scenario_body b2 r2 by auto
qed

lemma map_nth_take: "k \<le> length xs \<Longrightarrow> map (\<lambda>j. xs ! j) [0 ..< k] = take k xs"
  by (simp add: list_eq_iff_nth_eq)

lemma map_nth_drop: "map (\<lambda>j. xs ! j) [k ..< length xs] = drop k xs"
  by (simp add: list_eq_iff_nth_eq)

lemma sort_ones_zeros:
  "sort (replicate a (1 :: int) @ replicate b 0) = replicate b 0 @ replicate a 1"
  by (rule properties_for_sort) (auto simp: sorted_append)

lemma sort_rev_ones_zeros:
  "sort (rev (replicate a (1 :: int) @ replicate b 0)) = replicate b 0 @ replicate a 1"
  by (rule properties_for_sort) (auto simp: sorted_append)

text \<open>
  Above 1000 elements the premise on the draw is needed for the boundaries, though not for
  the returned list. On 517 ones followed by 484 zeros, 1001 elements with a sample of 1000
  and 31 buckets, the boundary at position 14 is 1 when the first 1000 positions are drawn
  and 0 when the last 1000 are.
\<close>

lemma boundaries_depend_on_draw:
  "\<exists>l1 l2. bsq_body first_positions 0 (replicate 517 (1 :: int) @ replicate 484 0) = Inr l1
         \<and> bsq_body last_positions 0 (replicate 517 (1 :: int) @ replicate 484 0) = Inr l2
         \<and> num_buckets l1 = 31 \<and> num_buckets l2 = 31
         \<and> sample_size l1 = 1000 \<and> sample_size l2 = 1000
         \<and> bucket_boundaries l1 ! 14 = 1 \<and> bucket_boundaries l2 ! 14 = 0
         \<and> sorted_data l1 = sorted_data l2"
proof -
  define D :: "int list" where "D = replicate 517 1 @ replicate 484 0"
  have len: "length D = 1001" by (simp add: D_def)
  have ne: "D \<noteq> []" using len by auto
  have lt: "length D < 2 ^ 63" by (simp add: len)
  have nb: "num_buckets (body_spec smp g D) = 31" for smp :: "nat sampler" and g
    using body_num_buckets(3) [OF ne lt, of smp g] calc_num_buckets_exact [of 31 1001]
    by (simp add: len)
  have ss: "sample_size (body_spec smp g D) = 1000" for smp :: "nat sampler" and g
    using calc_sample_size_exact [of 1001] by (simp add: body_spec_sel(2) len)
  have d1: "map (\<lambda>j. D ! j) (fst (first_positions 0 1001 1000))
              = replicate 517 1 @ replicate 483 0"
    using map_nth_take [of 1000 D] by (simp add: first_positions_def len) (simp add: D_def)
  have "map (\<lambda>j. D ! j) [1 ..< length D] = drop 1 D" by (rule map_nth_drop)
  then have "map (\<lambda>j. D ! j) [1 ..< 1001] = replicate 516 1 @ replicate 484 0"
    by (simp add: len) (simp add: D_def)
  then have d2: "map (\<lambda>j. D ! j) (fst (last_positions 0 1001 1000))
              = rev (replicate 516 1 @ replicate 484 0)"
    by (simp only: last_positions_def fst_conv rev_map [symmetric]) simp
  have k: "nat 1000 = (1000 :: nat)" by simp
  have s1: "sample (body_spec first_positions 0 D) = replicate 483 0 @ replicate 517 1"
    unfolding body_spec_sel(3) ss len k d1 by (rule sort_ones_zeros)
  have s2: "sample (body_spec last_positions 0 D) = replicate 484 0 @ replicate 516 1"
    unfolding body_spec_sel(3) ss len k d2 by (rule sort_rev_ones_zeros)
  have q: "qidx 15 31 1000 = 483" by (simp add: qidx_def fl_eval)
  have u: "[1 .. (31 :: int) - 1] ! 14 = 15" by (simp add: nth_upto)
  have ul: "14 < length [1 .. (31 :: int) - 1]" by simp
  have b1: "bucket_boundaries (body_spec first_positions 0 D) ! 14 = 1"
    by (subst body_spec_sel(4)) (simp only: nb ss nth_map [OF ul] u q s1, simp add: nth_append)
  have b2: "bucket_boundaries (body_spec last_positions 0 D) ! 14 = 0"
    by (subst body_spec_sel(4)) (simp only: nb ss nth_map [OF ul] u q s2, simp add: nth_append)
  have sd: "sorted_data (body_spec first_positions 0 D) = sorted_data (body_spec last_positions 0 D)"
    by (simp only: sort_eq_sort [OF first_positions_ok ne lt] sort_eq_sort [OF last_positions_ok ne lt])
  have "bsq_body first_positions 0 D = Inr (body_spec first_positions 0 D)"
    by (rule bsq_body_eq [OF first_positions_ok ne lt])
  moreover have "bsq_body last_positions 0 D = Inr (body_spec last_positions 0 D)"
    by (rule bsq_body_eq [OF last_positions_ok ne lt])
  ultimately show ?thesis
    unfolding D_def [symmetric] using nb ss b1 b2 sd by blast
qed

lemma round_half_even_near:
  assumes "of_int k - 1 / 2 < y" and "y \<le> of_int k"
  shows "round_half_even y = k"
proof (cases "y = of_int k")
  case True
  then show ?thesis by (simp add: round_half_even_of_int)
next
  case False
  with assms have "\<lfloor>y\<rfloor> = k - 1" by (simp add: floor_eq_iff)
  then show ?thesis using assms by (simp add: round_half_even_def Let_def)
qed

lemma fl_sqrt_above_square:
  "fl (sqrt 4503599761588224) = 67108865"
proof -
  define x :: real where "x = sqrt 4503599761588224"
  have lo: "67108865 - 1 / 2 ^ 27 < x"
    unfolding x_def by (rule real_less_rsqrt) (simp add: power2_eq_square field_simps)
  have hi: "x < 67108865"
    unfolding x_def by (rule real_less_lsqrt) simp_all
  have x0: "0 < x" using lo by simp
  have e: "flog2 x = 26"
    using lo hi by (intro flog2_eqI) simp_all
  have "x / 2 powi (26 - 52) = x * 2 ^ 26"
    by (simp add: power_int_minus_divide)
  moreover have "round_half_even (x * 2 ^ 26) = 67108865 * 2 ^ 26"
    using lo hi by (intro round_half_even_near) (simp_all add: field_simps)
  ultimately have "fl x = of_int (67108865 * 2 ^ 26) * 2 powi (- 26)"
    by (simp add: fl_pos [OF x0] e)
  then show ?thesis by (simp add: x_def power_int_minus_divide)
qed

lemma floor_sqrt_below_square: "\<lfloor>sqrt 4503599761588224\<rfloor> = 67108864"
proof -
  have "67108864 \<le> sqrt 4503599761588224"
    by (rule real_le_rsqrt) simp
  moreover have "sqrt 4503599761588224 < 67108865"
    by (rule real_less_lsqrt) simp_all
  ultimately show ?thesis by (simp add: floor_eq_iff)
qed

lemma floor_sqrt_bounds:
  assumes "0 \<le> n"
  shows "0 \<le> \<lfloor>sqrt (of_int n)\<rfloor>"
    and "\<lfloor>sqrt (of_int n)\<rfloor> * \<lfloor>sqrt (of_int n)\<rfloor> \<le> n"
    and "n < (\<lfloor>sqrt (of_int n)\<rfloor> + 1) * (\<lfloor>sqrt (of_int n)\<rfloor> + 1)"
proof -
  define x :: real where "x = sqrt (of_int n)"
  define k where "k = \<lfloor>x\<rfloor>"
  have x0: "0 \<le> x" using assms by (simp add: x_def)
  have xx: "x * x = of_int n" using assms by (simp add: x_def)
  have k0: "0 \<le> k" using x0 by (simp add: k_def)
  have kx: "of_int k \<le> x" "x < of_int k + 1" by (simp_all add: k_def)
  have "of_int k * of_int k \<le> x * x"
    using kx(1) k0 by (intro mult_mono) simp_all
  then have "(of_int (k * k) :: real) \<le> of_int n" using xx by simp
  then have a: "k * k \<le> n" by (simp only: of_int_le_iff)
  have "x * x < (of_int k + 1) * (of_int k + 1)"
    using kx(2) x0 by (intro mult_strict_mono) simp_all
  then have "(of_int n :: real) < of_int ((k + 1) * (k + 1))" using xx by simp
  then have b: "n < (k + 1) * (k + 1)" by (simp only: of_int_less_iff)
  show "0 \<le> \<lfloor>sqrt (of_int n)\<rfloor>"
    and "\<lfloor>sqrt (of_int n)\<rfloor> * \<lfloor>sqrt (of_int n)\<rfloor> \<le> n"
    and "n < (\<lfloor>sqrt (of_int n)\<rfloor> + 1) * (\<lfloor>sqrt (of_int n)\<rfloor> + 1)"
    using k0 a b by (simp_all add: k_def x_def)
qed

text \<open>
  C2 as stated fails: the code truncates \<^verbatim>\<open>n * 0.01\<close> with \<^verbatim>\<open>int\<close>, it does not round to
  the nearest integer. On an input of 100099 elements the sample has 1000 elements, where
  the claimed formula gives 1001.
\<close>

theorem sample_size_round_counterexample:
  "\<not> isl (bsq_body first_positions 0 (replicate 100099 (0::int)))
   \<and> int (length (sample (projr (bsq_body first_positions 0 (replicate 100099 (0::int)))))) = 1000
   \<and> min 100099 (max 1000 (round (0.01 * 100099 :: real))) = (1001 :: int)"
proof -
  let ?d = "replicate 100099 (0::int)"
  have ne: "?d \<noteq> []" and len: "length ?d < 2 ^ 63" by simp_all
  have b: "bsq_body first_positions 0 ?d = Inr (body_spec first_positions 0 ?d)"
    using first_positions_ok ne len by (rule bsq_body_eq)
  have "calc_sample_size 100099 = 1000"
    by (simp add: calc_sample_size_def fl_eval)
  then have "int (length (sample (body_spec first_positions 0 ?d))) = 1000"
    using body_sample(2) [OF first_positions_ok ne, of 0] by (simp add: body_spec_sel(2))
  moreover have "min 100099 (max 1000 (round (0.01 * 100099 :: real))) = (1001 :: int)"
    by (simp add: round_def)
  ultimately show ?thesis by (simp add: b)
qed

text \<open>
  C2, amended. In every call on a non-empty input of size \<open>n\<close> the sample has exactly
  \<open>sample_size = min(n, max(1000, int(n * 0.01)))\<close> elements, the product being the binary64
  product of \<^verbatim>\<open>float(n)\<close> and the literal \<^verbatim>\<open>0.01\<close>, truncated toward zero; for
  \<open>n < 2 ^ 52\<close> this is \<open>min(n, max(1000, n div 100))\<close>, with the floor of \<open>n / 100\<close> in
  place of the claim's rounding to nearest.
\<close>

theorem sample_size_truncates:
  assumes "sampler_ok smp" and "data \<noteq> []" and "length data < 2 ^ 63"
  shows "\<exists>l. bsq_body smp g data = Inr l
           \<and> int (length (sample l)) = sample_size l
           \<and> sample_size l
               = min (int (length data))
                   (max 1000 \<lfloor>fl (fl (of_int (int (length data))) * d001)\<rfloor>)
           \<and> (int (length data) < 2 ^ 52 \<longrightarrow>
                 sample_size l = min (int (length data)) (max 1000 (int (length data) div 100)))"
proof -
  let ?l = "body_spec smp g data"
  let ?n = "int (length data)"
  have "0 \<le> fl (of_int ?n) * d001"
    by (intro mult_nonneg_nonneg fl_nonneg) (simp_all add: d001_def)
  then have "0 \<le> fl (fl (of_int ?n) * d001)" by (rule fl_nonneg)
  then have "sample_size ?l = min ?n (max 1000 \<lfloor>fl (fl (of_int ?n) * d001)\<rfloor>)"
    by (simp add: body_spec_sel(2) calc_sample_size_def float_mul_def float_of_int_def
        int_of_float_nonneg)
  moreover have "?n < 2 ^ 52 \<longrightarrow> sample_size ?l = min ?n (max 1000 (?n div 100))"
    using calc_sample_size_exact [of ?n] by (simp add: body_spec_sel(2))
  moreover have "bsq_body smp g data = Inr ?l" by (rule bsq_body_eq [OF assms])
  moreover have "int (length (sample ?l)) = sample_size ?l" by (rule body_sample(2) [OF assms(1,2)])
  ultimately show ?thesis by blast
qed

theorem sample_size_truncates_witness:
  "sampler_ok first_positions \<and> [5, 3, 1, 4, 2 :: int] \<noteq> [] \<and> length [5, 3, 1, 4, 2 :: int] < 2 ^ 63
   \<and> (\<exists>l. bsq_body first_positions 0 [5, 3, 1, 4, 2 :: int] = Inr l
           \<and> int (length (sample l)) = sample_size l
           \<and> sample_size l = min 5 (max 1000 \<lfloor>fl (fl 5 * d001)\<rfloor>)
           \<and> sample_size l = min 5 (max 1000 (5 div 100)))"
  using sample_size_truncates [OF first_positions_ok, of "[5, 3, 1, 4, 2 :: int]" 0]
    first_positions_ok by simp

text \<open>
  The bound \<open>2 ^ 52\<close> in the next theorem is on the formula, not on the lists there are:
  \<^verbatim>\<open>int(math.sqrt(n))\<close> is the truncated binary64 square root, and just below a large
  perfect square the rounding reaches the next integer. At
  \<open>n = (2 ^ 26 + 1)\<^sup>2 - 1 = 4503599761588224\<close>, more elements than a list can hold, the
  formula of the code gives \<open>2 ^ 26 + 1\<close> where the integer square root is \<open>2 ^ 26\<close>.
\<close>

lemma float_sqrt_above_isqrt:
  "calc_num_buckets 4503599761588224 = Inr 67108865
   \<and> max 1 \<lfloor>sqrt (real 4503599761588224)\<rfloor> = 67108864"
proof -
  have "fl (of_int 4503599761588224) = of_int 4503599761588224"
    by (rule fl_of_int) simp_all
  then have "fl 4503599761588224 = 4503599761588224" by simp
  then have "calc_num_buckets 4503599761588224 = Inr 67108865"
    by (simp add: calc_num_buckets_def math_sqrt_def float_of_int_def int_of_float_def
        fl_sqrt_above_square)
  then show ?thesis by (simp add: floor_sqrt_below_square)
qed

text \<open>
  C4. In every call on a non-empty input of size \<open>n < 2 ^ 52\<close>, which is every list that
  fits in memory, \<open>num_buckets = max(1, floor(sqrt(n)))\<close> with \<open>floor(sqrt(n))\<close> the exact
  integer square root: the integer \<open>k\<close> with \<open>k\<^sup>2 \<le> n < (k + 1)\<^sup>2\<close>. The code computes it
  as \<^verbatim>\<open>max(1, int(math.sqrt(n)))\<close> in binary64, and below \<open>2 ^ 52\<close> the rounding of the
  square root never crosses an integer.
\<close>

theorem num_buckets_float_sqrt:
  assumes "sampler_ok smp" and "data \<noteq> []" and "length data < 2 ^ 63"
  shows "\<exists>l. bsq_body smp g data = Inr l
           \<and> num_buckets l = max 1 \<lfloor>fl (sqrt (fl (real (length data))))\<rfloor>
           \<and> (length data < 2 ^ 52 \<longrightarrow>
                 num_buckets l = max 1 \<lfloor>sqrt (real (length data))\<rfloor>
                 \<and> num_buckets l * num_buckets l \<le> int (length data)
                 \<and> int (length data) < (num_buckets l + 1) * (num_buckets l + 1))"
proof -
  let ?l = "body_spec smp g data"
  let ?n = "int (length data)"
  have "bsq_body smp g data = Inr ?l" by (rule bsq_body_eq [OF assms])
  moreover have "num_buckets ?l = max 1 \<lfloor>fl (sqrt (fl (real (length data))))\<rfloor>"
    by (simp add: body_spec_sel(1))
  moreover have "num_buckets ?l = max 1 \<lfloor>sqrt (real (length data))\<rfloor>
                 \<and> num_buckets ?l * num_buckets ?l \<le> ?n
                 \<and> ?n < (num_buckets ?l + 1) * (num_buckets ?l + 1)" if "length data < 2 ^ 52"
  proof -
    have n: "0 \<le> ?n" "?n < 2 ^ 52" using that by simp_all
    note k = floor_sqrt_bounds [OF n(1)]
    have "calc_num_buckets ?n = Inr (max 1 \<lfloor>sqrt (of_int ?n)\<rfloor>)"
      using k n(2) by (rule calc_num_buckets_exact)
    then have e: "num_buckets ?l = max 1 \<lfloor>sqrt (of_int ?n)\<rfloor>"
      using body_num_buckets(3) [OF assms(2,3), of smp g] by simp
    have "1 \<le> ?n" using assms(2) by (cases data) simp_all
    have "1 \<le> \<lfloor>sqrt (of_int ?n)\<rfloor>"
    proof (rule ccontr)
      assume "\<not> 1 \<le> \<lfloor>sqrt (of_int ?n)\<rfloor>"
      then have "\<lfloor>sqrt (of_int ?n)\<rfloor> = 0" using k(1) by linarith
      then show False using k(3) \<open>1 \<le> ?n\<close> by simp
    qed
    then have "num_buckets ?l = \<lfloor>sqrt (of_int ?n)\<rfloor>" using e by simp
    then show ?thesis using e k(2,3) by simp
  qed
  ultimately show ?thesis by blast
qed

theorem num_buckets_float_sqrt_witness:
  "sampler_ok first_positions \<and> [5, 3, 1, 4, 2 :: int] \<noteq> [] \<and> length [5, 3, 1, 4, 2 :: int] < 2 ^ 63
   \<and> length [5, 3, 1, 4, 2 :: int] < 2 ^ 52
   \<and> (\<exists>l. bsq_body first_positions 0 [5, 3, 1, 4, 2 :: int] = Inr l
           \<and> num_buckets l = 2
           \<and> num_buckets l = max 1 \<lfloor>fl (sqrt (fl 5))\<rfloor>
           \<and> num_buckets l = max 1 \<lfloor>sqrt 5\<rfloor>
           \<and> num_buckets l * num_buckets l \<le> 5 \<and> 5 < (num_buckets l + 1) * (num_buckets l + 1))"
  using num_buckets_float_sqrt [OF first_positions_ok, of "[5, 3, 1, 4, 2 :: int]" 0]
    first_positions_ok scenario_body by auto

lemma qidx_near_floor:
  assumes "1 \<le> i" and "0 < nb" and "1 \<le> ss" and "i * (ss - 1) < 2 ^ 50"
  shows "(i * (ss - 1)) div nb - 1 \<le> qidx i nb ss" and "qidx i nb ss \<le> (i * (ss - 1)) div nb"
proof -
  define a :: real where "a = of_int (ss - 1)"
  define r :: real where "r = of_int i / of_int nb"
  define v :: real where "v = r * a"
  define q where "q = fl r"
  define p where "p = q * a"
  define F where "F = (i * (ss - 1)) div nb"
  have nb: "(0::real) < of_int nb" using assms(2) by simp
  have i: "(1::real) \<le> of_int i" using assms(1) by simp
  have a0: "0 \<le> a" using assms(3) by (simp add: a_def)
  have r0: "0 < r" using nb i by (simp add: r_def)
  have v0: "0 \<le> v" using r0 a0 by (simp add: v_def)
  have "ss - 1 \<le> i * (ss - 1)" using assms(1,3) by (simp add: mult_le_cancel_right1)
  then have "ss - 1 \<le> 2 ^ 53" using assms(4) by simp
  then have fa: "fl (of_int (ss - 1)) = a"
    unfolding a_def using assms(3) by (intro fl_of_int) simp_all
  have q0: "0 \<le> q" unfolding q_def using r0 by (intro fl_nonneg) simp
  have p0: "0 \<le> p" using q0 a0 by (simp add: p_def)
  have qe: "\<bar>q - r\<bar> \<le> r / 2 ^ 53" unfolding q_def using r0 by (rule fl_err)
  have "\<bar>p - v\<bar> = \<bar>q - r\<bar> * a" using a0 by (simp add: p_def v_def abs_mult flip: left_diff_distrib)
  also have "\<dots> \<le> r / 2 ^ 53 * a" using qe a0 by (rule mult_right_mono)
  finally have pe: "\<bar>p - v\<bar> \<le> v / 2 ^ 53" by (simp add: v_def)
  have fe: "\<bar>fl p - p\<bar> \<le> p / 2 ^ 53"
  proof (cases "p = 0")
    case True
    then show ?thesis by (simp add: fl_def)
  next
    case False
    with p0 have "0 < p" by simp
    then show ?thesis by (rule fl_err)
  qed
  have err: "\<bar>fl p - v\<bar> \<le> v * (3 / 2 ^ 53)"
    using pe fe v0 by simp argo
  have vn: "v * of_int nb = of_int (i * (ss - 1))"
    using nb by (simp add: v_def r_def a_def)
  have "(of_int (i * (ss - 1)) :: real) < 2 ^ 50"
    using assms(4) of_int_less_iff [of "i * (ss - 1)" "2 ^ 50", where 'a = real] by simp
  then have "v * of_int nb < 2 ^ 50" using vn by simp
  then have "v * (3 / 2 ^ 53) * of_int nb < 3 / 8" by (simp add: field_simps)
  then have "v * (3 / 2 ^ 53) < (3 / 8) / of_int nb" using nb by (simp add: field_simps)
  with err have close: "\<bar>fl p - v\<bar> < (3 / 8) / of_int nb" by linarith
  have nb1: "(1::real) \<le> of_int nb" using assms(2) by simp
  then have small: "(3 / 8) / of_int nb < (1::real)" "(3 / 8) / (of_int nb :: real) < 1 / of_int nb"
    using nb by (simp_all add: field_simps)
  define N where "N = i * (ss - 1)"
  have md: "0 \<le> N mod nb" "N mod nb < nb" using assms(2) by simp_all
  have "nb * (N div nb) + N mod nb = N" by (rule mult_div_mod_eq)
  then have "nb * F \<le> N" "N \<le> nb * F + (nb - 1)"
    using md unfolding F_def N_def [symmetric] by linarith+
  then have dm: "nb * F \<le> i * (ss - 1)" "i * (ss - 1) \<le> nb * F + (nb - 1)"
    by (simp_all add: N_def)
  have "(of_int (nb * F) :: real) \<le> of_int (i * (ss - 1))"
    using dm(1) by (simp only: of_int_le_iff)
  then have "of_int nb * of_int F \<le> v * of_int nb" using vn by simp
  then have Fv: "of_int F \<le> v" using nb by (simp add: mult.commute)
  have "(of_int (i * (ss - 1)) :: real) \<le> of_int (nb * F + (nb - 1))"
    using dm(2) by (simp only: of_int_le_iff)
  moreover have "(of_int (nb * F + (nb - 1)) :: real) = of_int nb * of_int F + of_int nb - 1"
    by simp
  moreover have "(of_int F + 1 - 1 / of_int nb) * of_int nb
                   = of_int nb * of_int F + (of_int nb :: real) - 1"
    using nb by (simp add: field_simps)
  ultimately have "v * of_int nb \<le> (of_int F + 1 - 1 / of_int nb) * of_int nb"
    unfolding vn by linarith
  then have vF: "v \<le> of_int F + 1 - 1 / of_int nb" using nb by simp
  have qi: "qidx i nb ss = \<lfloor>fl p\<rfloor>"
    unfolding qidx_def fa p_def q_def r_def ..
  have "fl p < of_int (F + 1)" using close small(2) vF by (simp add: abs_less_iff)
  then have "\<lfloor>fl p\<rfloor> < F + 1" by (simp only: floor_less_iff)
  then show "qidx i nb ss \<le> (i * (ss - 1)) div nb"
    by (simp add: qi F_def)
  have "of_int (F - 1) \<le> fl p" using close small(1) Fv by (simp add: abs_less_iff)
  then have "F - 1 \<le> \<lfloor>fl p\<rfloor>" by (simp only: le_floor_iff)
  then show "(i * (ss - 1)) div nb - 1 \<le> qidx i nb ss"
    by (simp add: qi F_def)
qed


lemma floor_quantile_eq_div:
  "\<lfloor>of_int i / of_int nb * (of_int (ss - 1) :: real)\<rfloor> = (i * (ss - 1)) div nb"
proof -
  have "of_int i / of_int nb * (of_int (ss - 1) :: real) = of_int (i * (ss - 1)) / of_int nb"
    by simp
  then show ?thesis by (simp only: floor_divide_of_int_eq)
qed

text \<open>
  C3 as stated fails: the index is the truncated binary64 value of
  \<^verbatim>\<open>(i / num_buckets) * (sample_size - 1)\<close>, not the floor of the exact rational. With 290
  elements there are 17 buckets; for \<open>i = 13\<close> the exact value \<open>(13 / 17) * 289\<close> is the
  integer 221, the binary64 product is just below it, and the 13th boundary is the sample's
  element 220.
\<close>

theorem boundary_exact_floor_counterexample:
  "\<not> isl (bsq_body first_positions 0 [0 .. 289])
   \<and> num_buckets (projr (bsq_body first_positions 0 [0 .. 289])) = 17
   \<and> sample_size (projr (bsq_body first_positions 0 [0 .. 289])) = 290
   \<and> sample (projr (bsq_body first_positions 0 [0 .. 289])) = [0 .. 289]
   \<and> bucket_boundaries (projr (bsq_body first_positions 0 [0 .. 289])) ! 12 = 220
   \<and> [0 .. 289] ! nat \<lfloor>13 / 17 * (290 - 1 :: real)\<rfloor> = (221 :: int)"
proof -
  let ?d = "[0 .. 289] :: int list"
  let ?l = "body_spec first_positions 0 ?d"
  have len: "length ?d = 290" by simp
  have ne: "?d \<noteq> []" using len by auto
  have lt: "length ?d < 2 ^ 63" by simp
  have b: "bsq_body first_positions 0 ?d = Inr ?l"
    using first_positions_ok ne lt by (rule bsq_body_eq)
  have "calc_num_buckets 290 = Inr (max 1 17)"
    by (rule calc_num_buckets_exact) simp_all
  then have nb: "num_buckets ?l = 17"
    using body_num_buckets(3) [OF ne lt, of first_positions 0] by (simp add: len)
  have "calc_sample_size 290 = 290"
    by (simp add: calc_sample_size_def fl_eval)
  then have ss: "sample_size ?l = 290" by (simp add: body_spec_sel(2) len)
  have "map (\<lambda>j. ?d ! j) [0 ..< length ?d] = ?d" by (rule map_nth)
  then have "map (\<lambda>j. ?d ! j) [0 ..< 290] = ?d" by (simp only: len)
  then have sm: "sample ?l = ?d"
    by (subst body_spec_sel(3)) (simp add: ss first_positions_def len)
  have q: "qidx 13 17 290 = 220"
    by (simp add: qidx_def fl_def fl_mag_def flog2_def compute_floorlog round_half_even_def Let_def)
  have "bucket_boundaries ?l ! 12 = sample ?l ! nat (qidx ([1 .. 16] ! 12) 17 290)"
    by (subst body_spec_sel(4)) (simp add: nb ss)
  also have "\<dots> = 220" by (simp add: q sm)
  finally have bb: "bucket_boundaries ?l ! 12 = 220" .
  have "[0 .. 289] ! nat \<lfloor>13 / 17 * (290 - 1 :: real)\<rfloor> = (221 :: int)" by simp
  then show ?thesis by (simp only: b nb ss sm bb sum.sel sum.disc simp_thms)
qed

text \<open>
  C3, amended. In every call on a non-empty input, with \<open>b = num_buckets\<close> and
  \<open>s = sample_size\<close>, the sample is sorted and the boundary sequence is
  \<open>sample[k\<^sub>1], \<dots>, sample[k\<^bsub>b-1\<^esub>]\<close> where \<open>k\<^sub>i = qidx i b s\<close> is the truncated binary64
  value of \<^verbatim>\<open>(i / b) * (s - 1)\<close>, each operation rounded. Every \<open>k\<^sub>i\<close> lies in
  \<open>[0, s - 1]\<close>, and when \<open>i * (s - 1) < 2 ^ 50\<close> it is the floor of the exact rational
  \<open>(i / b) * (s - 1)\<close> or one less. When \<open>b = 1\<close> the boundary sequence is empty.
\<close>

theorem boundaries_float_index:
  assumes "sampler_ok smp" and "data \<noteq> []" and "length data < 2 ^ 63"
  shows "\<exists>l. bsq_body smp g data = Inr l
           \<and> sorted (sample l) \<and> int (length (sample l)) = sample_size l
           \<and> bucket_boundaries l
               = map (\<lambda>i. sample l ! nat (qidx i (num_buckets l) (sample_size l)))
                   [1 .. num_buckets l - 1]
           \<and> (\<forall>i. 1 \<le> i \<and> i < num_buckets l \<longrightarrow>
                 0 \<le> qidx i (num_buckets l) (sample_size l)
                 \<and> qidx i (num_buckets l) (sample_size l) \<le> sample_size l - 1
                 \<and> (i * (sample_size l - 1) < 2 ^ 50 \<longrightarrow>
                      \<lfloor>of_int i / of_int (num_buckets l) * (of_int (sample_size l - 1) :: real)\<rfloor> - 1
                        \<le> qidx i (num_buckets l) (sample_size l)
                      \<and> qidx i (num_buckets l) (sample_size l)
                        \<le> \<lfloor>of_int i / of_int (num_buckets l) * (of_int (sample_size l - 1) :: real)\<rfloor>))
           \<and> (num_buckets l = 1 \<longrightarrow> bucket_boundaries l = [])"
proof -
  let ?l = "body_spec smp g data"
  let ?nb = "num_buckets ?l"
  let ?ss = "sample_size ?l"
  note nb = body_num_buckets(1,2) [OF assms(2,3), of smp g]
  note ss = body_sample_size [OF assms(2), of smp g]
  have nb0: "0 < ?nb" using nb(1) by simp
  have "bsq_body smp g data = Inr ?l" by (rule bsq_body_eq [OF assms])
  moreover have "sorted (sample ?l)" by (rule body_sample(1) [OF assms(1,2)])
  moreover have sl: "int (length (sample ?l)) = ?ss" by (rule body_sample(2) [OF assms(1,2)])
  moreover have "bucket_boundaries ?l = map (\<lambda>i. sample ?l ! nat (qidx i ?nb ?ss)) [1 .. ?nb - 1]"
    by (rule body_spec_sel(4))
  moreover have "\<forall>i. 1 \<le> i \<and> i < ?nb \<longrightarrow>
                 0 \<le> qidx i ?nb ?ss \<and> qidx i ?nb ?ss \<le> ?ss - 1
                 \<and> (i * (?ss - 1) < 2 ^ 50 \<longrightarrow>
                      \<lfloor>of_int i / of_int ?nb * (of_int (?ss - 1) :: real)\<rfloor> - 1 \<le> qidx i ?nb ?ss
                      \<and> qidx i ?nb ?ss \<le> \<lfloor>of_int i / of_int ?nb * (of_int (?ss - 1) :: real)\<rfloor>)"
  proof (intro allI impI conjI)
    fix i assume i: "1 \<le> i \<and> i < ?nb"
    then have i1: "1 \<le> i" and i2: "i < ?nb" by simp_all
    show "0 \<le> qidx i ?nb ?ss" by (rule body_index_range(1) [OF assms i1 i2])
    show "qidx i ?nb ?ss \<le> ?ss - 1"
      using body_index_range(2) [OF assms i1 i2] sl by simp
    assume small: "i * (?ss - 1) < 2 ^ 50"
    show "\<lfloor>of_int i / of_int ?nb * (of_int (?ss - 1) :: real)\<rfloor> - 1 \<le> qidx i ?nb ?ss"
      unfolding floor_quantile_eq_div using i1 nb0 ss(1) small by (rule qidx_near_floor(1))
    show "qidx i ?nb ?ss \<le> \<lfloor>of_int i / of_int ?nb * (of_int (?ss - 1) :: real)\<rfloor>"
      unfolding floor_quantile_eq_div using i1 nb0 ss(1) small by (rule qidx_near_floor(2))
  qed
  moreover have "?nb = 1 \<longrightarrow> bucket_boundaries ?l = []"
  proof
    assume "?nb = 1"
    then have "length (bucket_boundaries ?l) = 0"
      using body_boundaries(2) [OF assms, of g] by linarith
    then show "bucket_boundaries ?l = []" by simp
  qed
  ultimately show ?thesis by blast
qed

theorem boundaries_float_index_witness:
  "sampler_ok first_positions \<and> [5, 3, 1, 4, 2 :: int] \<noteq> [] \<and> length [5, 3, 1, 4, 2 :: int] < 2 ^ 63
   \<and> (\<exists>l. bsq_body first_positions 0 [5, 3, 1, 4, 2 :: int] = Inr l
           \<and> sorted (sample l) \<and> int (length (sample l)) = sample_size l
           \<and> bucket_boundaries l
               = map (\<lambda>i. sample l ! nat (qidx i (num_buckets l) (sample_size l)))
                   [1 .. num_buckets l - 1]
           \<and> (\<forall>i. 1 \<le> i \<and> i < num_buckets l \<longrightarrow>
                 0 \<le> qidx i (num_buckets l) (sample_size l)
                 \<and> qidx i (num_buckets l) (sample_size l) \<le> sample_size l - 1
                 \<and> (i * (sample_size l - 1) < 2 ^ 50 \<longrightarrow>
                      \<lfloor>of_int i / of_int (num_buckets l) * (of_int (sample_size l - 1) :: real)\<rfloor> - 1
                        \<le> qidx i (num_buckets l) (sample_size l)
                      \<and> qidx i (num_buckets l) (sample_size l)
                        \<le> \<lfloor>of_int i / of_int (num_buckets l) * (of_int (sample_size l - 1) :: real)\<rfloor>))
           \<and> (num_buckets l = 1 \<longrightarrow> bucket_boundaries l = []))
   \<and> (1 :: int) \<le> 1 \<and> (1 :: int) < 2 \<and> (1 :: int) * (5 - 1) < 2 ^ 50
   \<and> qidx 1 2 5 = 2 \<and> \<lfloor>of_int 1 / of_int 2 * (of_int (5 - 1) :: real)\<rfloor> = 2"
proof -
  have "qidx 1 2 5 = 2"
    by (simp add: qidx_def fl_def fl_mag_def flog2_def compute_floorlog round_half_even_def Let_def)
  then show ?thesis
    using boundaries_float_index [OF first_positions_ok, of "[5, 3, 1, 4, 2 :: int]" 0]
      first_positions_ok by simp
qed

section \<open>The store\<close>

lemma frame_refl: "frame k h h"
  by (simp add: frame_def)

lemma frame_trans: "frame k h1 h2 \<Longrightarrow> frame k h2 h3 \<Longrightarrow> frame k h1 h3"
  by (auto simp: frame_def)

lemma frame_heap_set: "k \<le> r \<Longrightarrow> frame k h (heap_set r xs h)"
  by (simp add: frame_def heap_set_def)

lemma frame_heap_new: "k \<le> next_free h \<Longrightarrow> frame k h (snd (heap_new xs h))"
  by (simp add: frame_def heap_new_def)

lemma heap_new_ref: "fst (heap_new xs h) = next_free h"
  by (simp add: heap_new_def)

lemma frame_next: "frame k h h' \<Longrightarrow> k \<le> next_free h \<Longrightarrow> k \<le> next_free h'"
  by (simp add: frame_def)

lemma frame_boundaries_heap_loop:
  "k \<le> bb_ref \<Longrightarrow> frame k h (snd (boundaries_heap_loop sample_ref bb_ref nb ss is h))"
proof (induction "is" arbitrary: h)
  case Nil
  then show ?case by (simp add: frame_refl)
next
  case (Cons i "is")
  show ?case
  proof (cases "quantile_index i nb ss")
    case (Inl e)
    then show ?thesis by (simp add: frame_refl)
  next
    case (Inr index)
    show ?thesis
    proof (cases "list_get (heap_get h sample_ref) index")
      case (Inl e)
      with Inr show ?thesis by (simp add: frame_refl)
    next
      case v: (Inr v)
      have "frame k h (heap_set bb_ref (heap_get h bb_ref @ [v]) h)"
        using Cons.prems by (rule frame_heap_set)
      moreover have "frame k (heap_set bb_ref (heap_get h bb_ref @ [v]) h)
          (snd (boundaries_heap_loop sample_ref bb_ref nb ss is (heap_set bb_ref (heap_get h bb_ref @ [v]) h)))"
        using Cons.prems by (rule Cons.IH)
      ultimately show ?thesis using Inr v by (simp add: frame_trans)
    qed
  qed
qed

lemma frame_new_buckets:
  "k \<le> next_free h \<Longrightarrow>
     frame k h (snd (new_buckets m h)) \<and> (\<forall>r \<in> set (fst (new_buckets m h)). k \<le> r)"
proof (induction m arbitrary: h)
  case 0
  then show ?case by (simp add: frame_refl)
next
  case (Suc m)
  let ?h1 = "snd (heap_new [] h)"
  have f1: "frame k h ?h1" using Suc.prems by (rule frame_heap_new)
  then have "k \<le> next_free ?h1" using Suc.prems by (rule frame_next)
  from Suc.IH [OF this]
  have "frame k ?h1 (snd (new_buckets m ?h1))" "\<forall>r \<in> set (fst (new_buckets m ?h1)). k \<le> r"
    by simp_all
  then show ?case
    using f1 Suc.prems by (auto simp: case_prod_beta Let_def heap_new_ref intro: frame_trans)
qed

lemma bisect_left_by_loop_linorder:
  "bisect_left_by_loop linorder_compare a x lo hi = Some (bisect_left_loop a x lo hi)"
proof (induction a x lo hi rule: bisect_left_loop.induct)
  case (1 a x lo hi)
  show ?case
  proof (cases "lo < hi")
    case False
    then show ?thesis
      by (subst bisect_left_by_loop.simps, subst bisect_left_loop.simps) simp
  next
    case True
    define mid where "mid = (lo + hi) div 2"
    show ?thesis
    proof (cases "a ! mid < x")
      case less: True
      have "bisect_left_by_loop linorder_compare a x lo hi
              = bisect_left_by_loop linorder_compare a x (mid + 1) hi"
        using True less
        by (subst bisect_left_by_loop.simps) (simp add: linorder_compare_def mid_def)
      moreover have "bisect_left_loop a x lo hi = bisect_left_loop a x (mid + 1) hi"
        using True less by (subst bisect_left_loop.simps) (simp add: mid_def Let_def)
      ultimately show ?thesis using "1.IH"(1) [OF True mid_def less] by simp
    next
      case ge: False
      have "bisect_left_by_loop linorder_compare a x lo hi
              = bisect_left_by_loop linorder_compare a x lo mid"
        using True ge
        by (subst bisect_left_by_loop.simps) (simp add: linorder_compare_def mid_def)
      moreover have "bisect_left_loop a x lo hi = bisect_left_loop a x lo mid"
        using True ge by (subst bisect_left_loop.simps) (simp add: mid_def Let_def)
      ultimately show ?thesis using "1.IH"(2) [OF True mid_def ge] by simp
    qed
  qed
qed

lemma bisect_left_by_linorder: "bisect_left_by linorder_compare a x = Some (bisect_left a x)"
  by (simp add: bisect_left_by_def bisect_left_def bisect_left_by_loop_linorder)

lemma insort_by_linorder: "insort_by linorder_compare x ys = Some (insort x ys)"
  by (induction ys) (auto simp: linorder_compare_def)

lemma sort_by_linorder: "sort_by linorder_compare xs = Some (sort xs)"
  by (induction xs) (simp_all add: insort_by_linorder)

lemma sort_by_linorder_sorter: "sort_by linorder_compare = linorder_sorter"
  by (rule ext) (simp add: sort_by_linorder linorder_sorter_def)

lemma frame_assign_heap_loop:
  "\<forall>r \<in> set bucket_refs. k \<le> r \<Longrightarrow>
     frame k h (snd (assign_heap_loop lt bb_ref bucket_refs data_ref ks h))"
proof (induction ks arbitrary: h)
  case Nil
  then show ?case by (simp add: frame_refl)
next
  case (Cons j ks)
  define x where "x = heap_get h data_ref ! j"
  show ?case
  proof (cases "bisect_left_by lt (heap_get h bb_ref) x")
    case None
    then show ?thesis by (simp add: x_def frame_refl)
  next
    case (Some index)
    show ?thesis
    proof (cases "index < length bucket_refs")
      case False
      then show ?thesis using Some by (simp add: x_def frame_refl)
    next
      case True
      let ?h1 = "heap_set (bucket_refs ! index) (heap_get h (bucket_refs ! index) @ [x]) h"
      have "k \<le> bucket_refs ! index" using Cons.prems True by simp
      then have "frame k h ?h1" by (rule frame_heap_set)
      moreover have "frame k ?h1 (snd (assign_heap_loop lt bb_ref bucket_refs data_ref ks ?h1))"
        using Cons.prems by (rule Cons.IH)
      ultimately have "frame k h (snd (assign_heap_loop lt bb_ref bucket_refs data_ref ks ?h1))"
        by (rule frame_trans)
      then show ?thesis using True Some by (simp add: x_def)
    qed
  qed
qed

lemma frame_concat_heap_loop:
  "k \<le> sd_ref \<Longrightarrow> k \<le> next_free h \<Longrightarrow> frame k h (snd (concat_heap_loop srt sd_ref rs h))"
proof (induction rs arbitrary: h)
  case Nil
  then show ?case by (simp add: frame_refl)
next
  case (Cons r rs)
  show ?case
  proof (cases "srt (heap_get h r)")
    case None
    then show ?thesis by (simp add: frame_refl)
  next
    case (Some s)
    let ?h1 = "snd (heap_new s h)"
    let ?tmp = "fst (heap_new s h)"
    let ?h2 = "heap_set sd_ref (heap_get ?h1 sd_ref @ heap_get ?h1 ?tmp) ?h1"
    have f1: "frame k h ?h1" using Cons.prems(2) by (rule frame_heap_new)
    have f2: "frame k ?h1 ?h2" using Cons.prems(1) by (rule frame_heap_set)
    have f12: "frame k h ?h2" using f1 f2 by (rule frame_trans)
    then have "k \<le> next_free ?h2" using Cons.prems(2) by (rule frame_next)
    then have "frame k ?h2 (snd (concat_heap_loop srt sd_ref rs ?h2))"
      using Cons.prems(1) by (intro Cons.IH)
    with f12 have "frame k h (snd (concat_heap_loop srt sd_ref rs ?h2))" by (rule frame_trans)
    then show ?thesis using Some by (simp add: case_prod_beta Let_def)
  qed
qed

lemma frame_bsq_heap:
  "frame (next_free h) h (fst (snd (bsq_heap lt srt smp g h data_ref)))"
proof -
  let ?k = "next_free h"
  let ?data = "heap_get h data_ref"
  let ?n = "int (length ?data)"
  let ?ss = "calc_sample_size ?n"
  show ?thesis
  proof (cases "?n = 0")
    case True
    then show ?thesis by (simp add: bsq_heap_def frame_refl)
  next
    case n: False
    show ?thesis
    proof (cases "calc_num_buckets ?n")
      case (Inl e)
      then show ?thesis using n by (simp add: bsq_heap_def frame_refl)
    next
      case nb: (Inr nb)
      show ?thesis
      proof (cases "random_sample smp g ?data ?ss")
        case (Inl e)
        then show ?thesis using n nb by (simp add: bsq_heap_def frame_refl)
      next
        case (Inr dg)
        obtain drawn g' where dg: "dg = (drawn, g')" by (cases dg)
        note rs = Inr [unfolded dg]
        define sr where "sr = fst (heap_new drawn h)"
        define h1 where "h1 = snd (heap_new drawn h)"
        have e1: "heap_new drawn h = (sr, h1)" by (simp add: sr_def h1_def)
        have f1: "frame ?k h h1" unfolding h1_def by (rule frame_heap_new) simp
        have sr: "?k \<le> sr" by (simp add: sr_def heap_new_ref)
        show ?thesis
        proof (cases "srt (heap_get h1 sr)")
          case None
          then have "fst (snd (bsq_heap lt srt smp g h data_ref)) = h1"
            using n nb rs by (simp add: bsq_heap_def e1)
          then show ?thesis using f1 by simp
        next
          case (Some sorted_sample)
          define h2 where "h2 = heap_set sr sorted_sample h1"
          define br where "br = fst (heap_new [] h2)"
          define h3 where "h3 = snd (heap_new [] h2)"
          define bl where "bl = boundaries_heap_loop sr br nb ?ss [1 .. nb - 1] h3"
          define h4 where "h4 = snd bl"
          have e3: "heap_new [] h2 = (br, h3)" by (simp add: br_def h3_def)
          have f2: "frame ?k h h2"
            unfolding h2_def using f1 frame_heap_set [OF sr] by (rule frame_trans)
          have k2: "?k \<le> next_free h2" using f2 by (rule frame_next) simp
          have f3: "frame ?k h h3"
            unfolding h3_def using f2 frame_heap_new [OF k2] by (rule frame_trans)
          have br: "?k \<le> br" using k2 by (simp add: br_def heap_new_ref)
          have f4: "frame ?k h h4"
            unfolding h4_def bl_def using f3 frame_boundaries_heap_loop [OF br] by (rule frame_trans)
          have k4: "?k \<le> next_free h4" using f4 by (rule frame_next) simp
          show ?thesis
          proof (cases "fst bl")
            case (Some e)
            then have e4: "boundaries_heap_loop sr br nb ?ss [1 .. nb - 1] h3 = (Some e, h4)"
              by (simp add: bl_def h4_def prod_eq_iff)
            have "fst (snd (bsq_heap lt srt smp g h data_ref)) = h4"
              using n nb rs \<open>srt (heap_get h1 sr) = Some sorted_sample\<close>
              by (simp add: bsq_heap_def e1 h2_def [symmetric] e3 e4)
            then show ?thesis using f4 by simp
          next
            case None
            then have e4: "boundaries_heap_loop sr br nb ?ss [1 .. nb - 1] h3 = (None, h4)"
              by (simp add: bl_def h4_def prod_eq_iff)
            define refs where "refs = fst (new_buckets (nat nb) h4)"
            define h5 where "h5 = snd (new_buckets (nat nb) h4)"
            define al where "al = assign_heap_loop lt br refs data_ref
                                    [0 ..< length (heap_get h5 data_ref)] h5"
            define h6 where "h6 = snd al"
            have e5: "new_buckets (nat nb) h4 = (refs, h5)" by (simp add: refs_def h5_def)
            note nbk = frame_new_buckets [OF k4, of "nat nb", folded refs_def h5_def]
            have f5: "frame ?k h h5" using f4 nbk by (blast intro: frame_trans)
            have refs: "\<forall>r \<in> set refs. ?k \<le> r" using nbk by blast
            have f6: "frame ?k h h6"
              unfolding h6_def al_def using f5 frame_assign_heap_loop [OF refs] by (rule frame_trans)
            have k6: "?k \<le> next_free h6" using f6 by (rule frame_next) simp
            show ?thesis
            proof (cases "fst al")
              case (Some e)
              then have e6: "assign_heap_loop lt br refs data_ref
                               [0 ..< length (heap_get h5 data_ref)] h5 = (Some e, h6)"
                by (simp add: al_def h6_def prod_eq_iff)
              have "fst (snd (bsq_heap lt srt smp g h data_ref)) = h6"
                using n nb rs \<open>srt (heap_get h1 sr) = Some sorted_sample\<close>
                by (simp add: bsq_heap_def e1 h2_def [symmetric] e3 e4 e5 e6)
              then show ?thesis using f6 by simp
            next
              case None
              then have e6: "assign_heap_loop lt br refs data_ref
                               [0 ..< length (heap_get h5 data_ref)] h5 = (None, h6)"
                by (simp add: al_def h6_def prod_eq_iff)
              define sd where "sd = fst (heap_new [] h6)"
              define h7 where "h7 = snd (heap_new [] h6)"
              define cl where "cl = concat_heap_loop srt sd refs h7"
              have e7: "heap_new [] h6 = (sd, h7)" by (simp add: sd_def h7_def)
              have f7: "frame ?k h h7"
                unfolding h7_def using f6 frame_heap_new [OF k6] by (rule frame_trans)
              have k7: "?k \<le> next_free h7" using f7 by (rule frame_next) simp
              have sd: "?k \<le> sd" using k6 by (simp add: sd_def heap_new_ref)
              have f8: "frame ?k h (snd cl)"
                unfolding cl_def using f7 frame_concat_heap_loop [OF sd k7] by (rule frame_trans)
              have "fst (snd (bsq_heap lt srt smp g h data_ref)) = snd cl"
                using n nb rs \<open>srt (heap_get h1 sr) = Some sorted_sample\<close>
                by (simp add: bsq_heap_def e1 h2_def [symmetric] e3 e4 e5 e6 e7 cl_def [symmetric]
                    case_prod_beta split: option.splits)
              then show ?thesis using f8 by simp
            qed
          qed
        qed
      qed
    qed
  qed
qed

lemma heap_get_set: "heap_get (heap_set r xs h) a = (if a = r then xs else heap_get h a)"
  by (simp add: heap_get_def heap_set_def)

lemma heap_get_new:
  "heap_get (snd (heap_new xs h)) a = (if a = next_free h then xs else heap_get h a)"
  by (simp add: heap_get_def heap_new_def)

lemma next_free_set: "next_free (heap_set r xs h) = next_free h"
  by (simp add: heap_set_def)

lemma next_free_new: "next_free (snd (heap_new xs h)) = Suc (next_free h)"
  by (simp add: heap_new_def)

lemma boundaries_heap_loop_refines:
  assumes "sample_ref \<noteq> bb_ref"
  shows "(case boundaries_loop (heap_get h sample_ref) nb ss idxs (heap_get h bb_ref) of
            Inl e \<Rightarrow> fst (boundaries_heap_loop sample_ref bb_ref nb ss idxs h) = Some e
          | Inr bb \<Rightarrow> fst (boundaries_heap_loop sample_ref bb_ref nb ss idxs h) = None
                     \<and> heap_get (snd (boundaries_heap_loop sample_ref bb_ref nb ss idxs h)) bb_ref = bb)
       \<and> (\<forall>a. a \<noteq> bb_ref \<longrightarrow>
             heap_get (snd (boundaries_heap_loop sample_ref bb_ref nb ss idxs h)) a = heap_get h a)
       \<and> next_free (snd (boundaries_heap_loop sample_ref bb_ref nb ss idxs h)) = next_free h"
proof (induction idxs arbitrary: h)
  case Nil
  then show ?case by simp
next
  case (Cons i idxs)
  show ?case
  proof (cases "quantile_index i nb ss")
    case (Inl e)
    then show ?thesis by simp
  next
    case (Inr index)
    show ?thesis
    proof (cases "list_get (heap_get h sample_ref) index")
      case (Inl e)
      with Inr show ?thesis by simp
    next
      case v: (Inr v)
      let ?h1 = "heap_set bb_ref (heap_get h bb_ref @ [v]) h"
      have g1: "heap_get ?h1 sample_ref = heap_get h sample_ref"
        "heap_get ?h1 bb_ref = heap_get h bb_ref @ [v]"
        using assms by (simp_all add: heap_get_set)
      have hstep: "boundaries_heap_loop sample_ref bb_ref nb ss (i # idxs) h
                     = boundaries_heap_loop sample_ref bb_ref nb ss idxs ?h1"
        using Inr v by simp
      have pstep: "boundaries_loop (heap_get h sample_ref) nb ss (i # idxs) (heap_get h bb_ref)
                     = boundaries_loop (heap_get ?h1 sample_ref) nb ss idxs (heap_get ?h1 bb_ref)"
        using Inr v by (simp add: g1)
      have fr: "\<forall>a. a \<noteq> bb_ref \<longrightarrow> heap_get ?h1 a = heap_get h a"
        by (simp add: heap_get_set)
      show ?thesis
        unfolding hstep pstep using Cons.IH [of ?h1] fr by (simp add: next_free_set)
    qed
  qed
qed

lemma new_buckets_spec:
  "fst (new_buckets m h) = [next_free h ..< next_free h + m]
   \<and> next_free (snd (new_buckets m h)) = next_free h + m
   \<and> (\<forall>a. heap_get (snd (new_buckets m h)) a
            = (if next_free h \<le> a \<and> a < next_free h + m then [] else heap_get h a))"
proof (induction m arbitrary: h)
  case 0
  then show ?case by auto
next
  case (Suc m)
  let ?h1 = "snd (heap_new [] h)"
  from Suc.IH [of ?h1]
  have ih1: "fst (new_buckets m ?h1) = [Suc (next_free h) ..< Suc (next_free h) + m]"
    and ih2: "next_free (snd (new_buckets m ?h1)) = Suc (next_free h) + m"
    and ih3: "\<forall>a. heap_get (snd (new_buckets m ?h1)) a
                = (if Suc (next_free h) \<le> a \<and> a < Suc (next_free h) + m then []
                   else heap_get ?h1 a)"
    unfolding next_free_new by blast+
  have f: "fst (new_buckets (Suc m) h) = next_free h # fst (new_buckets m ?h1)"
    by (simp add: case_prod_beta Let_def heap_new_ref)
  have s: "snd (new_buckets (Suc m) h) = snd (new_buckets m ?h1)"
    by (simp add: case_prod_beta Let_def)
  have a: "fst (new_buckets (Suc m) h) = [next_free h ..< next_free h + Suc m]"
    unfolding f ih1 by (simp add: upt_conv_Cons)
  have b: "next_free (snd (new_buckets (Suc m) h)) = next_free h + Suc m"
    unfolding s ih2 by simp
  have c: "\<forall>a. heap_get (snd (new_buckets (Suc m) h)) a
            = (if next_free h \<le> a \<and> a < next_free h + Suc m then [] else heap_get h a)"
    unfolding s using ih3 by (auto simp: heap_get_new)
  from a b c show ?case by blast
qed

lemma map_update_distinct:
  assumes "distinct refs" and "k < length refs"
  shows "map (\<lambda>a. if a = refs ! k then v else f a) refs = (map f refs)[k := v]"
proof (rule nth_equalityI)
  show "length (map (\<lambda>a. if a = refs ! k then v else f a) refs) = length ((map f refs)[k := v])"
    by simp
next
  fix j assume "j < length (map (\<lambda>a. if a = refs ! k then v else f a) refs)"
  then have j: "j < length refs" by simp
  then have "refs ! j = refs ! k \<longleftrightarrow> j = k"
    using assms by (simp add: nth_eq_iff_index_eq)
  then show "map (\<lambda>a. if a = refs ! k then v else f a) refs ! j = (map f refs)[k := v] ! j"
    using j assms(2) by (simp add: nth_list_update)
qed

lemma assign_heap_loop_refines:
  assumes "distinct refs" and "bb_ref \<notin> set refs" and "data_ref \<notin> set refs"
  shows "(case assign_loop (heap_get h bb_ref) (map (heap_get h) refs)
                (map (\<lambda>k. heap_get h data_ref ! k) ks) of
            Inl e \<Rightarrow> fst (assign_heap_loop linorder_compare bb_ref refs data_ref ks h) = Some e
          | Inr bs \<Rightarrow> fst (assign_heap_loop linorder_compare bb_ref refs data_ref ks h) = None
                     \<and> map (heap_get (snd (assign_heap_loop linorder_compare bb_ref refs data_ref ks h))) refs = bs)
       \<and> (\<forall>a. a \<notin> set refs \<longrightarrow>
             heap_get (snd (assign_heap_loop linorder_compare bb_ref refs data_ref ks h)) a = heap_get h a)
       \<and> next_free (snd (assign_heap_loop linorder_compare bb_ref refs data_ref ks h)) = next_free h"
proof (induction ks arbitrary: h)
  case Nil
  then show ?case by simp
next
  case (Cons k ks)
  define x where "x = heap_get h data_ref ! k"
  define index where "index = bisect_left (heap_get h bb_ref) x"
  show ?case
  proof (cases "index < length refs")
    case False
    then show ?thesis
      by (simp add: Let_def bisect_left_by_linorder x_def [symmetric] index_def [symmetric])
  next
    case True
    let ?h1 = "heap_set (refs ! index) (heap_get h (refs ! index) @ [x]) h"
    have r: "refs ! index \<in> set refs" using True by simp
    then have ne: "bb_ref \<noteq> refs ! index" "data_ref \<noteq> refs ! index"
      using assms(2,3) by auto
    have g1: "heap_get ?h1 bb_ref = heap_get h bb_ref" "heap_get ?h1 data_ref = heap_get h data_ref"
      using ne by (simp_all add: heap_get_set)
    have "map (heap_get ?h1) refs
            = map (\<lambda>a. if a = refs ! index then heap_get h (refs ! index) @ [x] else heap_get h a) refs"
      by (simp add: heap_get_set)
    also have "\<dots> = (map (heap_get h) refs)[index := heap_get h (refs ! index) @ [x]]"
      using assms(1) True by (rule map_update_distinct)
    finally have m1: "map (heap_get ?h1) refs
            = (map (heap_get h) refs)[index := map (heap_get h) refs ! index @ [x]]"
      using True by simp
    have step: "assign_loop (heap_get h bb_ref) (map (heap_get h) refs)
                  (map (\<lambda>k. heap_get h data_ref ! k) (k # ks))
                = assign_loop (heap_get ?h1 bb_ref) (map (heap_get ?h1) refs)
                    (map (\<lambda>k. heap_get ?h1 data_ref ! k) ks)"
      using True by (simp add: Let_def x_def [symmetric] index_def [symmetric] g1 m1)
    have hstep: "assign_heap_loop linorder_compare bb_ref refs data_ref (k # ks) h
                   = assign_heap_loop linorder_compare bb_ref refs data_ref ks ?h1"
      using True by (simp add: bisect_left_by_linorder x_def [symmetric] index_def [symmetric])
    have fr: "\<forall>a. a \<notin> set refs \<longrightarrow> heap_get ?h1 a = heap_get h a"
      using r by (auto simp: heap_get_set)
    show ?thesis
      unfolding step hstep using Cons.IH [of ?h1] fr by (simp add: next_free_set)
  qed
qed

lemma concat_heap_loop_refines:
  assumes "sd_ref < next_free h" and "\<forall>r \<in> set rs. r < next_free h" and "sd_ref \<notin> set rs"
  shows "fst (concat_heap_loop linorder_sorter sd_ref rs h) = None
       \<and> heap_get (snd (concat_heap_loop linorder_sorter sd_ref rs h)) sd_ref
           = concat_loop (map (heap_get h) rs) (heap_get h sd_ref)"
  using assms
proof (induction rs arbitrary: h)
  case Nil
  then show ?case by simp
next
  case (Cons r rs)
  let ?tmp = "fst (heap_new (sort (heap_get h r)) h)"
  let ?h1 = "snd (heap_new (sort (heap_get h r)) h)"
  let ?h2 = "heap_set sd_ref (heap_get ?h1 sd_ref @ heap_get ?h1 ?tmp) ?h1"
  have tmp: "?tmp = next_free h" by (rule heap_new_ref)
  have sd: "heap_get ?h2 sd_ref = heap_get h sd_ref @ sort (heap_get h r)"
    using Cons.prems(1) by (simp add: heap_get_set heap_get_new tmp)
  have nf: "next_free ?h2 = Suc (next_free h)" by (simp add: next_free_set next_free_new)
  have same: "\<forall>a \<in> set rs. heap_get ?h2 a = heap_get h a"
    using Cons.prems(2,3) by (auto simp: heap_get_set heap_get_new)
  then have m: "map (heap_get ?h2) rs = map (heap_get h) rs" by simp
  have step: "concat_heap_loop linorder_sorter sd_ref (r # rs) h
                = concat_heap_loop linorder_sorter sd_ref rs ?h2"
    by (simp add: linorder_sorter_def case_prod_beta Let_def)
  have "fst (concat_heap_loop linorder_sorter sd_ref rs ?h2) = None
       \<and> heap_get (snd (concat_heap_loop linorder_sorter sd_ref rs ?h2)) sd_ref
          = concat_loop (map (heap_get ?h2) rs) (heap_get ?h2 sd_ref)"
    using Cons.prems by (intro Cons.IH) (auto simp: nf)
  then show ?case unfolding step by (simp add: m sd)
qed

lemma bsq_heap_refines:
  assumes "data_ref < next_free h"
  shows "case bucket_sort_quantile_based smp g (heap_get h data_ref) of
           Inl e \<Rightarrow> fst (bsq_heap linorder_compare linorder_sorter smp g h data_ref) = Inl e
         | Inr (out, g') \<Rightarrow>
             (\<exists>r. fst (bsq_heap linorder_compare linorder_sorter smp g h data_ref) = Inr r
                  \<and> heap_get (fst (snd (bsq_heap linorder_compare linorder_sorter smp g h data_ref))) r = out
                  \<and> snd (snd (bsq_heap linorder_compare linorder_sorter smp g h data_ref)) = g')"
proof -
  let ?k = "next_free h"
  let ?data = "heap_get h data_ref"
  let ?n = "int (length ?data)"
  let ?ss = "calc_sample_size ?n"
  show ?thesis
  proof (cases "?n = 0")
    case True
    then show ?thesis by (simp add: bsq_heap_def bucket_sort_quantile_based_def)
  next
    case n: False
    then have ne: "length ?data \<noteq> 0" by simp
    show ?thesis
    proof (cases "calc_num_buckets ?n")
      case (Inl e)
      then show ?thesis
        using n ne by (simp add: bsq_heap_def bucket_sort_quantile_based_def bsq_body_def)
    next
      case nb: (Inr nb)
      show ?thesis
      proof (cases "random_sample smp g ?data ?ss")
        case (Inl e)
        then show ?thesis
          using n ne nb by (simp add: bsq_heap_def bucket_sort_quantile_based_def bsq_body_def)
      next
        case (Inr dg)
        obtain drawn g' where dg: "dg = (drawn, g')" by (cases dg)
        note rs = Inr [unfolded dg]
        define sr where "sr = fst (heap_new drawn h)"
        define h1 where "h1 = snd (heap_new drawn h)"
        define h2 where "h2 = heap_set sr (sort (heap_get h1 sr)) h1"
        define br where "br = fst (heap_new [] h2)"
        define h3 where "h3 = snd (heap_new [] h2)"
        define bl where "bl = boundaries_heap_loop sr br nb ?ss [1 .. nb - 1] h3"
        define h4 where "h4 = snd bl"
        define refs where "refs = fst (new_buckets (nat nb) h4)"
        define h5 where "h5 = snd (new_buckets (nat nb) h4)"
        define al where "al = assign_heap_loop linorder_compare br refs data_ref [0 ..< length (heap_get h5 data_ref)] h5"
        define h6 where "h6 = snd al"
        define sd where "sd = fst (heap_new [] h6)"
        define h7 where "h7 = snd (heap_new [] h6)"
        define cl where "cl = concat_heap_loop linorder_sorter sd refs h7"
        have srt1: "linorder_sorter (heap_get h1 sr) = Some (sort (heap_get h1 sr))"
          by (simp add: linorder_sorter_def)
        have e1: "heap_new drawn h = (sr, h1)" by (simp add: sr_def h1_def)
        have e3: "heap_new [] h2 = (br, h3)" by (simp add: br_def h3_def)
        have e5: "new_buckets (nat nb) h4 = (refs, h5)" by (simp add: refs_def h5_def)
        have e7: "heap_new [] h6 = (sd, h7)" by (simp add: sd_def h7_def)
        have sr: "sr = ?k" unfolding sr_def by (rule heap_new_ref)
        have g1: "heap_get h1 a = (if a = ?k then drawn else heap_get h a)" for a
          unfolding h1_def by (rule heap_get_new)
        have n1: "next_free h1 = Suc ?k" unfolding h1_def by (rule next_free_new)
        have g2: "heap_get h2 a = (if a = ?k then sort drawn else heap_get h a)" for a
          unfolding h2_def heap_get_set g1 sr by simp
        have n2: "next_free h2 = Suc ?k" unfolding h2_def next_free_set by (rule n1)
        have br: "br = Suc ?k" unfolding br_def heap_new_ref by (rule n2)
        have g3: "heap_get h3 a = (if a = Suc ?k then [] else heap_get h2 a)" for a
          unfolding h3_def heap_get_new n2 ..
        define base where "base = Suc (Suc ?k)"
        have base: "Suc ?k < base" "data_ref < base" using assms by (simp_all add: base_def)
        have n3: "next_free h3 = base" unfolding h3_def next_free_new n2 base_def ..
        have srbr: "sr \<noteq> br" by (simp add: sr br)
        have in3: "heap_get h3 sr = sort drawn" "heap_get h3 br = []"
          by (simp_all add: g3 g2 sr br)
        note blr = boundaries_heap_loop_refines [OF srbr, where h = h3 and nb = nb and ss = ?ss and idxs = "[1 .. nb - 1]",
            folded bl_def, folded h4_def, unfolded in3 n3]
        have n4: "next_free h4 = base" using blr by simp
        have g4: "a \<noteq> Suc ?k \<Longrightarrow> heap_get h4 a = heap_get h3 a" for a
          using blr by (simp add: br)
        show ?thesis
        proof (cases "boundaries_loop (sort drawn) nb ?ss [1 .. nb - 1] []")
          case (Inl e)
          then have "fst bl = Some e" using blr by simp
          then have e4: "boundaries_heap_loop sr br nb ?ss [1 .. nb - 1] h3 = (Some e, h4)"
            by (simp add: bl_def h4_def prod_eq_iff)
          have "fst (bsq_heap linorder_compare linorder_sorter smp g h data_ref) = Inl e"
            using n nb rs by (simp add: bsq_heap_def e1 srt1 h2_def [symmetric] e3 e4)
          moreover have "bucket_sort_quantile_based smp g ?data = Inl e"
            using ne nb rs Inl by (simp add: bucket_sort_quantile_based_def bsq_body_def)
          ultimately show ?thesis by simp
        next
          case bbr: (Inr bb)
          then have b4: "fst bl = None" "heap_get h4 br = bb" using blr by simp_all
          have e4: "boundaries_heap_loop sr br nb ?ss [1 .. nb - 1] h3 = (None, h4)"
            using b4(1) by (simp add: bl_def h4_def prod_eq_iff)
          note nbs = new_buckets_spec [of "nat nb" h4, folded refs_def h5_def, unfolded n4]
          have refs: "refs = [base ..< base + nat nb]"
            using nbs by blast
          have n5: "next_free h5 = base + nat nb" using nbs by blast
          have g5: "heap_get h5 a
                      = (if base \<le> a \<and> a < base + nat nb then [] else heap_get h4 a)" for a
            using nbs by blast
          have d5: "heap_get h5 data_ref = ?data"
            using assms base by (simp add: g5 g4 g3 g2)
          have b5: "heap_get h5 br = bb" using b4(2) base by (simp add: g5 br)
          have "map (heap_get h5) refs = map (\<lambda>_. []) refs"
            by (rule map_cong) (simp_all add: refs g5)
          then have m5: "map (heap_get h5) refs = replicate (nat nb) []"
            by (simp add: map_replicate_const refs)
          have dist: "distinct refs" "br \<notin> set refs" "data_ref \<notin> set refs"
            using base by (simp_all add: refs br)
          have xs: "map (\<lambda>k. heap_get h5 data_ref ! k) [0 ..< length (heap_get h5 data_ref)] = ?data"
            unfolding d5 by (rule map_nth)
          note alr = assign_heap_loop_refines [OF dist, where h = h5 and ks = "[0 ..< length (heap_get h5 data_ref)]",
              folded al_def, folded h6_def, unfolded xs b5 m5 n5]
          have n6: "next_free h6 = base + nat nb" using alr by simp
          show ?thesis
          proof (cases "assign_loop bb (replicate (nat nb) []) ?data")
            case (Inl e)
            then have "fst al = Some e" using alr by simp
            then have e6: "assign_heap_loop linorder_compare br refs data_ref [0 ..< length (heap_get h5 data_ref)] h5
                             = (Some e, h6)"
              by (simp add: al_def h6_def prod_eq_iff)
            have "fst (bsq_heap linorder_compare linorder_sorter smp g h data_ref) = Inl e"
              using n nb rs by (simp add: bsq_heap_def e1 srt1 h2_def [symmetric] e3 e4 e5 e6)
            moreover have "bucket_sort_quantile_based smp g ?data = Inl e"
              using ne nb rs bbr Inl by (simp add: bucket_sort_quantile_based_def bsq_body_def)
            ultimately show ?thesis by simp
          next
            case bsr: (Inr bs)
            then have a6: "fst al = None" "map (heap_get h6) refs = bs"
              using alr by simp_all
            have e6: "assign_heap_loop linorder_compare br refs data_ref [0 ..< length (heap_get h5 data_ref)] h5
                             = (None, h6)"
              using a6(1) by (simp add: al_def h6_def prod_eq_iff)
            have sd: "sd = base + nat nb" unfolding sd_def heap_new_ref by (rule n6)
            have n7: "next_free h7 = Suc (base + nat nb)"
              unfolding h7_def next_free_new n6 ..
            have g7: "heap_get h7 a = (if a = base + nat nb then [] else heap_get h6 a)" for a
              unfolding h7_def heap_get_new n6 ..
            have c1: "sd < next_free h7" by (simp add: sd n7)
            have c2: "\<forall>r \<in> set refs. r < next_free h7" by (simp add: refs n7)
            have c3: "sd \<notin> set refs" by (simp add: sd refs)
            have "map (heap_get h7) refs = map (heap_get h6) refs"
              by (rule map_cong) (simp_all add: g7 refs)
            then have m7: "map (heap_get h7) refs = bs" using a6(2) by simp
            have z7: "heap_get h7 sd = []" by (simp add: g7 sd)
            have out: "fst cl = None" "heap_get (snd cl) sd = concat_loop bs []"
              using concat_heap_loop_refines [OF c1 c2 c3] by (simp_all add: m7 z7 cl_def)
            then have e8: "concat_heap_loop linorder_sorter sd refs h7 = (None, snd cl)"
              by (simp add: cl_def prod_eq_iff)
            have "bsq_heap linorder_compare linorder_sorter smp g h data_ref = (Inr sd, snd cl, g')"
              using n nb rs
              by (simp add: bsq_heap_def e1 srt1 h2_def [symmetric] e3 e4 e5 e6 e7 e8)
            moreover have "bucket_sort_quantile_based smp g ?data = Inr (concat_loop bs [], g')"
              using ne nb rs bbr bsr by (simp add: bucket_sort_quantile_based_def bsq_body_def)
            ultimately show ?thesis using out(2) by simp
          qed
        qed
      qed
    qed
  qed
qed

lemma scenario_sort:
  "bucket_sort_quantile_based first_positions 0 [5, 3, 1, 4, 2 :: int] = Inr ([1, 2, 3, 4, 5], 1)"
  by (simp add: bucket_sort_quantile_based_def scenario_body)

lemma scenario_type_error:
  "fst (bsq_heap py_less (sort_by py_less) first_positions 0
          \<lparr>cells = [0 \<mapsto> [Some 3, None, Some 1]], next_free = 1\<rparr> 0) = Inl TypeError"
proof -
  have nb: "calc_num_buckets 3 = Inr 1"
    using calc_num_buckets_exact [of 1 3] by simp
  have ss: "calc_sample_size 3 = 3"
    by (simp add: calc_sample_size_def fl_eval)
  have rs: "random_sample first_positions 0 [Some 3, None, Some (1 :: int)] 3
              = Inr ([Some 3, None, Some 1], 1)"
    by (simp add: random_sample_def first_positions_def upt_rec)
  have srt: "sort_by py_less [Some 3, None, Some 1] = None"
    by (simp add: py_less_def)
  show ?thesis
    by (simp add: bsq_heap_def heap_get_def heap_new_def nb ss rs py_less_def)
qed

text \<open>
  C8. On the store, where the caller's list is the object at \<open>data_ref\<close>: for elements of any
  type, for any comparison and any sort, raising or not, and whatever the sampler does, every
  object that existed before the call holds the same elements in the same order after it,
  the caller's list among them, whether the call returns a list or raises. Every write of the
  call goes to a list it has created itself. On totally ordered elements, where no comparison
  raises, the call on the store computes what the function on values computes: it raises the
  same error, or returns a reference to the same list and leaves the random source in the
  same state.
\<close>

theorem input_not_mutated:
  fixes h :: "'a heap" and hv :: "'b::linorder heap"
  assumes "data_ref < next_free h" and "val_ref < next_free hv"
  shows "cells (fst (snd (bsq_heap lt srt smp g h data_ref))) data_ref = cells h data_ref
       \<and> (\<forall>a < next_free h. cells (fst (snd (bsq_heap lt srt smp g h data_ref))) a = cells h a)
       \<and> (case bucket_sort_quantile_based smpv gv (heap_get hv val_ref) of
             Inl e \<Rightarrow> fst (bsq_heap linorder_compare linorder_sorter smpv gv hv val_ref) = Inl e
           | Inr (out, g') \<Rightarrow>
               (\<exists>r. fst (bsq_heap linorder_compare linorder_sorter smpv gv hv val_ref) = Inr r
                    \<and> heap_get (fst (snd (bsq_heap linorder_compare linorder_sorter smpv gv hv val_ref))) r
                        = out
                    \<and> snd (snd (bsq_heap linorder_compare linorder_sorter smpv gv hv val_ref)) = g'))"
  using frame_bsq_heap [of h lt srt smp g data_ref] bsq_heap_refines [OF assms(2), of smpv gv] assms(1)
  by (simp add: frame_def)

theorem input_not_mutated_witness:
  "(0 :: nat) < next_free \<lparr>cells = [0 \<mapsto> [Some 3, None, Some (1 :: int)]], next_free = 1\<rparr>
   \<and> (0 :: nat) < next_free \<lparr>cells = [0 \<mapsto> [5, 3, 1, 4, 2 :: int]], next_free = 1\<rparr>
   \<and> fst (bsq_heap py_less (sort_by py_less) first_positions 0
             \<lparr>cells = [0 \<mapsto> [Some 3, None, Some 1]], next_free = 1\<rparr> 0) = Inl TypeError
   \<and> cells (fst (snd (bsq_heap py_less (sort_by py_less) first_positions 0
             \<lparr>cells = [0 \<mapsto> [Some 3, None, Some 1]], next_free = 1\<rparr> 0))) 0
       = Some [Some 3, None, Some 1]
   \<and> cells (fst (snd (bsq_heap linorder_compare linorder_sorter first_positions 0
             \<lparr>cells = [0 \<mapsto> [5, 3, 1, 4, 2 :: int]], next_free = 1\<rparr> 0))) 0
       = Some [5, 3, 1, 4, 2]
   \<and> (\<exists>r. fst (bsq_heap linorder_compare linorder_sorter first_positions 0
             \<lparr>cells = [0 \<mapsto> [5, 3, 1, 4, 2 :: int]], next_free = 1\<rparr> 0) = Inr r
          \<and> heap_get (fst (snd (bsq_heap linorder_compare linorder_sorter first_positions 0
               \<lparr>cells = [0 \<mapsto> [5, 3, 1, 4, 2 :: int]], next_free = 1\<rparr> 0))) r
              = [1, 2, 3, 4, 5])"
  using input_not_mutated [of 0 "\<lparr>cells = [0 \<mapsto> [Some 3, None, Some (1 :: int)]], next_free = 1\<rparr>"
      0 "\<lparr>cells = [0 \<mapsto> [5, 3, 1, 4, 2 :: int]], next_free = 1\<rparr>"
      py_less "sort_by py_less" first_positions 0 first_positions 0]
    input_not_mutated [of 0 "\<lparr>cells = [0 \<mapsto> [5, 3, 1, 4, 2 :: int]], next_free = 1\<rparr>"
      0 "\<lparr>cells = [0 \<mapsto> [5, 3, 1, 4, 2 :: int]], next_free = 1\<rparr>"
      linorder_compare linorder_sorter first_positions 0 first_positions 0]
    scenario_sort scenario_type_error
  by (auto simp: heap_get_def)

end
